theory Spec2Isabelle
  imports Complex_Main "HOL-Library.AList"
begin

section \<open>Order management core of the backtest engine (backtest/Order.py)\<close>

text \<open>
  The module is embedded function by function. Python objects are records, the
  enumerations are datatypes, every \<^verbatim>\<open>assert\<close> and every failing dictionary
  or list operation is an error value. A method that mutates its object returns the
  object as the call leaves it together with the outcome, also when the call raises:
  Python does not undo the assignments made before an exception.

  Numbers typed \<^verbatim>\<open>float\<close> in the source are exact rationals here, so the
  comparisons and sums are those of the source on every finite value; binary rounding
  and NaN are outside the model. Identifiers come from \<^verbatim>\<open>uuid.uuid4()\<close>;
  a constructor takes the freshly drawn identifier as its first argument.
\<close>

subsection \<open>Enumerations and errors\<close>

datatype OrderSide = Buy | Sell

datatype OrderType = Limit | Market | StopLimit

datatype OrderStatus = Submitted | Accepted | Open | Filled | Cancelled

fun OrderSide_value :: "OrderSide \<Rightarrow> string" where
  "OrderSide_value Buy = ''buy''"
| "OrderSide_value Sell = ''sell''"

fun OrderType_value :: "OrderType \<Rightarrow> string" where
  "OrderType_value Limit = ''limit''"
| "OrderType_value Market = ''market''"
| "OrderType_value StopLimit = ''stop_limit''"

fun OrderStatus_value :: "OrderStatus \<Rightarrow> string" where
  "OrderStatus_value Submitted = ''submitted''"
| "OrderStatus_value Accepted = ''accepted''"
| "OrderStatus_value Open = ''open''"
| "OrderStatus_value Filled = ''filled''"
| "OrderStatus_value Cancelled = ''cancelled''"

text \<open>
  The exceptions the module can raise: a failed \<^verbatim>\<open>assert\<close>, a missing
  dictionary key (also \<^verbatim>\<open>popitem\<close> on an empty dictionary), and a value
  missing from a sorted list.
\<close>

datatype error = AssertionError | KeyError | ValueError

subsection \<open>Transaction and Order\<close>

text \<open>
  The field \<^verbatim>\<open>_id\<close> is named \<open>uid\<close> and \<^verbatim>\<open>_type\<close> is named
  \<open>order_type\<close>. The field \<^verbatim>\<open>_datetime\<close> is a function of the timestamp and the
  local time zone; it is not stored, and the snapshots take its rendering as a
  parameter.
\<close>

record transaction =
  timestamp :: int
  side :: OrderSide
  quote_name :: string
  base_name :: string
  symbol :: string
  amount :: rat
  price :: rat
  uid :: int

definition Transaction_init ::
  "int \<Rightarrow> string \<Rightarrow> string \<Rightarrow> rat \<Rightarrow> rat \<Rightarrow> OrderSide \<Rightarrow> int \<Rightarrow> transaction" where
  "Transaction_init new_id qn bn pr amt sd ts =
     \<lparr>timestamp = ts, side = sd, quote_name = qn, base_name = bn,
      symbol = qn @ ''/'' @ bn, amount = amt, price = pr, uid = new_id\<rparr>"

record order = transaction +
  status :: OrderStatus
  order_type :: OrderType
  stop_price :: rat
  filled :: rat
  transactions :: "transaction list"
  fee :: "(string \<times> rat) list"

definition Order_init ::
  "int \<Rightarrow> int \<Rightarrow> OrderType \<Rightarrow> OrderSide \<Rightarrow> string \<Rightarrow> string \<Rightarrow> rat \<Rightarrow> rat \<Rightarrow> rat
     \<Rightarrow> error + order" where
  "Order_init new_id ts ty sd qn bn amt pr sp =
     (if \<not> amt > 0 then Inl AssertionError
      else let pr1 = (if ty = Market then 0 else pr);
               sp1 = (if ty \<noteq> StopLimit then 0 else sp)
           in if \<not> (pr1 \<ge> 0 \<and> sp1 \<ge> 0) then Inl AssertionError
              else Inr (transaction.extend (Transaction_init new_id qn bn pr1 amt sd ts)
                          (order.fields Submitted ty sp1 0 [] [])))"

definition remaining :: "order \<Rightarrow> rat" where
  "remaining self = amount self - filled self"

definition Order_open :: "order \<Rightarrow> order \<times> (error + unit)" where
  "Order_open self =
     (if \<not> order_type self \<noteq> Market then (self, Inl AssertionError)
      else (self\<lparr>status := Open\<rparr>, Inr ()))"

definition Order_accept :: "order \<Rightarrow> order \<times> (error + unit)" where
  "Order_accept self =
     (if \<not> order_type self = StopLimit then (self, Inl AssertionError)
      else (self\<lparr>status := Accepted\<rparr>, Inr ()))"

definition Order_cancel :: "order \<Rightarrow> order \<times> (error + unit)" where
  "Order_cancel self = (self\<lparr>status := Cancelled\<rparr>, Inr ())"

definition generate_transaction :: "int \<Rightarrow> order \<Rightarrow> rat \<Rightarrow> rat \<Rightarrow> int \<Rightarrow> transaction" where
  "generate_transaction new_id self amt pr ts =
     Transaction_init new_id (quote_name self) (base_name self) pr amt (side self) ts"


definition pay_fee :: "order \<Rightarrow> string \<Rightarrow> rat \<Rightarrow> order" where
  "pay_fee self asset amt =
     (if amt = 0 then self
      else case map_of (fee self) asset of
             None \<Rightarrow> self\<lparr>fee := AList.update asset amt (fee self)\<rparr>
           | Some a \<Rightarrow> self\<lparr>fee := AList.update asset (a + amt) (fee self)\<rparr>)"


subsection \<open>Snapshots\<close>

text \<open>
  A snapshot is a Python dictionary: an association list in the order of the dictionary
  display, over the values that occur in it. \<open>py_round x n\<close> is
  \<^verbatim>\<open>round(x, n)\<close>: the nearest multiple of the n-th power of one tenth, a tie
  going to the even one. The parameter \<open>dt_str\<close> is the rendering
  \<^verbatim>\<open>str(datetime.fromtimestamp(timestamp / 1000.0))\<close> of the standard library.
\<close>

datatype pyval =
  PInt int | PNum rat | PStr string | PList "pyval list" | PDict "(string \<times> pyval) list"

definition round_half_even :: "rat \<Rightarrow> int" where
  "round_half_even x =
     (let f = \<lfloor>x\<rfloor>; d = x - of_int f
      in if d < 1 / 2 then f else if 1 / 2 < d then f + 1
         else if even f then f else f + 1)"

definition py_round :: "rat \<Rightarrow> nat \<Rightarrow> rat" where
  "py_round x n = of_int (round_half_even (x * 10 ^ n)) / 10 ^ n"

definition PREC :: nat where
  "PREC = 8"

definition PPREC :: nat where
  "PPREC = 2"

definition Transaction_info :: "(int \<Rightarrow> string) \<Rightarrow> transaction \<Rightarrow> pyval" where
  "Transaction_info dt_str self =
     PDict [(''datetime'', PStr (dt_str (timestamp self))),
            (''timestamp'', PInt (timestamp self)),
            (''price'', PNum (py_round (price self) PREC)),
            (''amount'', PNum (py_round (amount self) PREC))]"

definition filled_percentage :: "order \<Rightarrow> rat" where
  "filled_percentage self = py_round ((filled self / amount self) * 100) PPREC"

definition Order_info :: "(int \<Rightarrow> string) \<Rightarrow> order \<Rightarrow> pyval" where
  "Order_info dt_str self =
     PDict [(''id'', PInt (uid self)),
            (''datetime'', PStr (dt_str (timestamp self))),
            (''timestamp'', PInt (timestamp self)),
            (''status'', PStr (OrderStatus_value (status self))),
            (''symbol'', PStr (symbol self)),
            (''type'', PStr (OrderType_value (order_type self))),
            (''side'', PStr (OrderSide_value (side self))),
            (''price'', PNum (py_round (price self) PREC)),
            (''stop_price'', PNum (py_round (stop_price self) PREC)),
            (''amount'', PNum (py_round (amount self) PREC)),
            (''filled'', PNum (py_round (filled self) PREC)),
            (''remaining'', PNum (py_round (remaining self) PREC)),
            (''transaction'', PList (map (Transaction_info dt_str) (transactions self))),
            (''fee'', PDict (map (\<lambda>(a, v). (a, PNum (py_round v PREC))) (fee self)))]"

text \<open>Reading a snapshot: its keys in order, and the value under a key. A value \<open>v\<close>
  is \<open>x\<close> rounded to \<open>n\<close> decimal places when it is a whole number of units of the
  n-th decimal place and at most half a unit away from \<open>x\<close>.\<close>

fun pykeys :: "pyval \<Rightarrow> string list" where
  "pykeys (PDict kvs) = map fst kvs"
| "pykeys v = []"

fun pyget :: "pyval \<Rightarrow> string \<Rightarrow> pyval option" where
  "pyget (PDict kvs) k = map_of kvs k"
| "pyget v k = None"

definition rounded_to :: "nat \<Rightarrow> rat \<Rightarrow> rat \<Rightarrow> bool" where
  "rounded_to n x v \<longleftrightarrow> (\<exists>m::int. v = of_int m / 10 ^ n) \<and> \<bar>v - x\<bar> * (2 * 10 ^ n) \<le> 1"

subsection \<open>OrderBookBase and OrderQueue\<close>

text \<open>
  \<^verbatim>\<open>book\<close> is a dictionary from identifier to order, kept as an association list in
  insertion order: \<open>AList.update\<close> overwrites an existing key in place and appends a new
  one, as assignment to a Python \<^verbatim>\<open>dict\<close> or \<^verbatim>\<open>OrderedDict\<close> does.
  An order is stored with the fields it has when it is stored.
\<close>

record order_book_base =
  book :: "(int \<times> order) list"

type_synonym order_queue = order_book_base

definition get_order :: "'a order_book_base_scheme \<Rightarrow> int \<Rightarrow> error + order" where
  "get_order self order_id =
     (case map_of (book self) order_id of None \<Rightarrow> Inl KeyError | Some ord \<Rightarrow> Inr ord)"

definition OrderQueue_init :: order_queue where
  "OrderQueue_init = \<lparr>book = []\<rparr>"

definition add_new_order ::
  "order_queue \<Rightarrow> int \<Rightarrow> int \<Rightarrow> OrderType \<Rightarrow> OrderSide \<Rightarrow> string \<Rightarrow> string \<Rightarrow> rat \<Rightarrow> rat \<Rightarrow> rat
     \<Rightarrow> order_queue \<times> (error + int)" where
  "add_new_order self new_id ts ty sd qn bn amt pr sp =
     (case Order_init new_id ts ty sd qn bn amt pr sp of
        Inl e \<Rightarrow> (self, Inl e)
      | Inr new_order \<Rightarrow>
          (self\<lparr>book := AList.update (uid new_order) new_order (book self)\<rparr>,
           Inr (uid new_order)))"

text \<open>\<^verbatim>\<open>popitem(last=False)\<close> takes the oldest item and raises KeyError on an
  empty dictionary.\<close>

definition pop_order :: "order_queue \<Rightarrow> order_queue \<times> (error + order)" where
  "pop_order self =
     (case book self of
        [] \<Rightarrow> (self, Inl KeyError)
      | (k, v) # rest \<Rightarrow> (self\<lparr>book := rest\<rparr>, Inr v))"

fun queue_loop ::
  "(int \<Rightarrow> string) \<Rightarrow> int \<Rightarrow> bool \<Rightarrow> (int \<times> order) list \<Rightarrow> int \<Rightarrow> pyval list \<Rightarrow> pyval list" where
  "queue_loop dt_str limit id_only [] count orders = orders"
| "queue_loop dt_str limit id_only ((order_id, ord) # rest) count orders =
     (let orders1 = (if id_only then orders @ [PInt order_id]
                     else orders @ [Order_info dt_str ord]);
          count1 = count + 1
      in if count1 = limit \<and> limit > 0 then orders1
         else queue_loop dt_str limit id_only rest count1 orders1)"

definition queue_get_orders :: "(int \<Rightarrow> string) \<Rightarrow> order_queue \<Rightarrow> int \<Rightarrow> bool \<Rightarrow> pyval list" where
  "queue_get_orders dt_str self limit id_only = queue_loop dt_str limit id_only (book self) 0 []"

text \<open>A run of \<^verbatim>\<open>add_new_order\<close> calls, each with the identifier drawn for it and
  the arguments of the call, and a run of \<^verbatim>\<open>pop_order\<close> calls; both list the
  outcome of every call.\<close>

type_synonym order_args = "int \<times> int \<times> OrderType \<times> OrderSide \<times> string \<times> string \<times> rat \<times> rat \<times> rat"

fun construct :: "order_args \<Rightarrow> error + order" where
  "construct (new_id, ts, ty, sd, qn, bn, amt, pr, sp) = Order_init new_id ts ty sd qn bn amt pr sp"

fun add_all :: "order_queue \<Rightarrow> order_args list \<Rightarrow> order_queue \<times> (error + int) list" where
  "add_all self [] = (self, [])"
| "add_all self ((new_id, ts, ty, sd, qn, bn, amt, pr, sp) # rest) =
     (case add_new_order self new_id ts ty sd qn bn amt pr sp of
        (self1, r) \<Rightarrow> (case add_all self1 rest of (self2, rs) \<Rightarrow> (self2, r # rs)))"

fun pop_all :: "nat \<Rightarrow> order_queue \<Rightarrow> order_queue \<times> (error + order) list" where
  "pop_all 0 self = (self, [])"
| "pop_all (Suc n) self =
     (case pop_order self of
        (self1, r) \<Rightarrow> (case pop_all n self1 of (self2, rs) \<Rightarrow> (self2, r # rs)))"

subsection \<open>SortedDict of the sortedcontainers library\<close>

text \<open>
  A \<^verbatim>\<open>SortedDict(key)\<close> is a dictionary together with a
  \<^verbatim>\<open>SortedKeyList\<close> of its keys. The list keeps, for every entry, the sort key
  computed when the entry was added, so it is a list of pairs (sort key, entry), flat
  here where the library cuts it into runs of bounded length. \<^verbatim>\<open>bisect_left\<close>
  and \<^verbatim>\<open>bisect_right\<close> are given by what they return on a sorted list.
  The key function can raise, so it returns an error or a sort key.

  \<^item> \<^verbatim>\<open>add\<close> computes the key, then inserts to the right of the equal keys;
  \<^item> \<^verbatim>\<open>remove\<close> raises ValueError on an empty list, then computes the key,
    finds the leftmost entry with that key, and walks right over the entries with that
    key until the value is found; ValueError when it is not;
  \<^item> \<^verbatim>\<open>__setitem__\<close> adds the key to the list when it is new, then stores the
    value; \<^verbatim>\<open>__delitem__\<close> deletes from the dictionary (KeyError when absent),
    then removes the key from the list.
\<close>

record sorted_dict =
  sd_dict :: "(int \<times> order) list"
  sd_list :: "(int \<times> int) list"

definition SortedDict_init :: sorted_dict where
  "SortedDict_init = \<lparr>sd_dict = [], sd_list = []\<rparr>"

definition bisect_left :: "int list \<Rightarrow> int \<Rightarrow> nat" where
  "bisect_left ks k = length (takeWhile (\<lambda>x. x < k) ks)"

definition bisect_right :: "int list \<Rightarrow> int \<Rightarrow> nat" where
  "bisect_right ks k = length (takeWhile (\<lambda>x. x \<le> k) ks)"

definition skl_add :: "(int \<Rightarrow> error + int) \<Rightarrow> int \<Rightarrow> (int \<times> int) list \<Rightarrow> error + (int \<times> int) list" where
  "skl_add keyf v l =
     (case keyf v of
        Inl e \<Rightarrow> Inl e
      | Inr k \<Rightarrow> (let idx = bisect_right (map fst l) k
                  in Inr (take idx l @ [(k, v)] @ drop idx l)))"

fun skl_scan :: "int \<Rightarrow> int \<Rightarrow> (int \<times> int) list \<Rightarrow> error + (int \<times> int) list" where
  "skl_scan k v [] = Inl ValueError"
| "skl_scan k v ((k', v') # rest) =
     (if k' \<noteq> k then Inl ValueError
      else if v' = v then Inr rest
      else (case skl_scan k v rest of Inl e \<Rightarrow> Inl e | Inr rest1 \<Rightarrow> Inr ((k', v') # rest1)))"

definition skl_remove :: "(int \<Rightarrow> error + int) \<Rightarrow> int \<Rightarrow> (int \<times> int) list \<Rightarrow> error + (int \<times> int) list" where
  "skl_remove keyf v l =
     (if l = [] then Inl ValueError
      else case keyf v of
             Inl e \<Rightarrow> Inl e
           | Inr k \<Rightarrow> (let pos = bisect_left (map fst l) k
                       in if pos = length l then Inl ValueError
                          else case skl_scan k v (drop pos l) of
                                 Inl e \<Rightarrow> Inl e
                               | Inr rest \<Rightarrow> Inr (take pos l @ rest)))"

definition sd_setitem ::
  "(int \<Rightarrow> error + int) \<Rightarrow> sorted_dict \<Rightarrow> int \<Rightarrow> order \<Rightarrow> sorted_dict \<times> (error + unit)" where
  "sd_setitem keyf self k v =
     (if map_of (sd_dict self) k = None
      then (case skl_add keyf k (sd_list self) of
              Inl e \<Rightarrow> (self, Inl e)
            | Inr l \<Rightarrow> (self\<lparr>sd_list := l, sd_dict := AList.update k v (sd_dict self)\<rparr>, Inr ()))
      else (self\<lparr>sd_dict := AList.update k v (sd_dict self)\<rparr>, Inr ()))"

definition sd_delitem ::
  "(int \<Rightarrow> error + int) \<Rightarrow> sorted_dict \<Rightarrow> int \<Rightarrow> sorted_dict \<times> (error + unit)" where
  "sd_delitem keyf self k =
     (if map_of (sd_dict self) k = None then (self, Inl KeyError)
      else (let self1 = self\<lparr>sd_dict := AList.delete k (sd_dict self)\<rparr>
            in case skl_remove keyf k (sd_list self1) of
                 Inl e \<Rightarrow> (self1, Inl e)
               | Inr l \<Rightarrow> (self1\<lparr>sd_list := l\<rparr>, Inr ())))"

text \<open>Iterating over the keys follows the sorted list; \<^verbatim>\<open>len\<close> is that of the
  dictionary.\<close>

definition sd_keys :: "sorted_dict \<Rightarrow> int list" where
  "sd_keys self = map snd (sd_list self)"

definition sd_len :: "sorted_dict \<Rightarrow> nat" where
  "sd_len self = length (sd_dict self)"

text \<open>The slice \<^verbatim>\<open>xs[start:]\<close>: a negative start counts from the end, and a start
  outside the list is clamped.\<close>

definition slice_from :: "'a list \<Rightarrow> int \<Rightarrow> 'a list" where
  "slice_from xs start =
     (let n = int (length xs);
          s = (if start < 0 then max (n + start) 0 else min start n)
      in drop (nat s) xs)"

subsection \<open>OrderBook\<close>

record order_book = order_book_base +
  time_dict :: sorted_dict
  symbol_dict :: "(string \<times> sorted_dict) list"

definition OrderBook_init :: order_book where
  "OrderBook_init = \<lparr>book = [], time_dict = SortedDict_init, symbol_dict = []\<rparr>"

text \<open>The key function of both kinds of index,
  \<^verbatim>\<open>lambda order_id: self.book[order_id].timestamp\<close>, reads the primary map as it
  is when the function is called.\<close>

definition key_of :: "order_book \<Rightarrow> int \<Rightarrow> error + int" where
  "key_of self order_id =
     (case map_of (book self) order_id of
        None \<Rightarrow> Inl KeyError
      | Some ord \<Rightarrow> Inr (timestamp ord))"

text \<open>The statement \<^verbatim>\<open>self.symbol_dict[symbol][order_id] = order\<close>.\<close>

definition set_symbol_item ::
  "order_book \<Rightarrow> string \<Rightarrow> int \<Rightarrow> order \<Rightarrow> order_book \<times> (error + unit)" where
  "set_symbol_item self symb order_id ord =
     (case map_of (symbol_dict self) symb of
        None \<Rightarrow> (self, Inl KeyError)
      | Some d \<Rightarrow>
          (case sd_setitem (key_of self) d order_id ord of
             (d1, r) \<Rightarrow> (self\<lparr>symbol_dict := AList.update symb d1 (symbol_dict self)\<rparr>, r)))"

definition insert_order :: "order_book \<Rightarrow> order \<Rightarrow> order_book \<times> (error + unit)" where
  "insert_order self ord =
     (let order_id = uid ord;
          self1 = self\<lparr>book := AList.update order_id ord (book self)\<rparr>
      in case sd_setitem (key_of self1) (time_dict self1) order_id ord of
           (td, Inl e) \<Rightarrow> (self1\<lparr>time_dict := td\<rparr>, Inl e)
         | (td, Inr _) \<Rightarrow>
             (let self2 = self1\<lparr>time_dict := td\<rparr>;
                  symb = symbol ord
              in if map_of (symbol_dict self2) symb = None
                 then set_symbol_item
                        (self2\<lparr>symbol_dict := AList.update symb SortedDict_init (symbol_dict self2)\<rparr>)
                        symb order_id ord
                 else set_symbol_item self2 symb order_id ord))"

text \<open>The three statements of \<^verbatim>\<open>remove_order\<close>, in the order of the source.\<close>

definition del_time_item :: "order \<Rightarrow> order_book \<Rightarrow> order_book \<times> (error + unit)" where
  "del_time_item ord self =
     (case sd_delitem (key_of self) (time_dict self) (uid ord) of
        (td, r) \<Rightarrow> (self\<lparr>time_dict := td\<rparr>, r))"

definition del_symbol_item :: "order \<Rightarrow> order_book \<Rightarrow> order_book \<times> (error + unit)" where
  "del_symbol_item ord self =
     (case map_of (symbol_dict self) (symbol ord) of
        None \<Rightarrow> (self, Inl KeyError)
      | Some d \<Rightarrow>
          (case sd_delitem (key_of self) d (uid ord) of
             (d1, r) \<Rightarrow> (self\<lparr>symbol_dict := AList.update (symbol ord) d1 (symbol_dict self)\<rparr>, r)))"

definition del_book_item :: "order \<Rightarrow> order_book \<Rightarrow> order_book \<times> (error + unit)" where
  "del_book_item ord self =
     (if map_of (book self) (uid ord) = None then (self, Inl KeyError)
      else (self\<lparr>book := AList.delete (uid ord) (book self)\<rparr>, Inr ()))"

text \<open>Statements run one after the other; the first that raises ends the run. The
  trace lists the state after each statement that was started.\<close>

fun run_steps ::
  "(order_book \<Rightarrow> order_book \<times> (error + unit)) list \<Rightarrow> order_book
     \<Rightarrow> order_book list \<times> (error + unit)" where
  "run_steps [] self = ([], Inr ())"
| "run_steps (stmt # stmts) self =
     (case stmt self of
        (self1, Inl e) \<Rightarrow> ([self1], Inl e)
      | (self1, Inr _) \<Rightarrow>
          (case run_steps stmts self1 of (trace, r) \<Rightarrow> (self1 # trace, r)))"

definition remove_order_steps :: "order \<Rightarrow> (order_book \<Rightarrow> order_book \<times> (error + unit)) list" where
  "remove_order_steps ord = [del_time_item ord, del_symbol_item ord, del_book_item ord]"

definition remove_order_trace :: "order_book \<Rightarrow> order \<Rightarrow> order_book list" where
  "remove_order_trace self ord = fst (run_steps (remove_order_steps ord) self)"

definition remove_order :: "order_book \<Rightarrow> order \<Rightarrow> order_book \<times> (error + unit)" where
  "remove_order self ord =
     (case run_steps (remove_order_steps ord) self of
        (trace, r) \<Rightarrow> (last (self # trace), r))"

fun infos_of :: "(int \<Rightarrow> string) \<Rightarrow> order_book \<Rightarrow> int list \<Rightarrow> error + pyval list" where
  "infos_of dt_str self [] = Inr []"
| "infos_of dt_str self (order_id # rest) =
     (case map_of (book self) order_id of
        None \<Rightarrow> Inl KeyError
      | Some ord \<Rightarrow>
          (case infos_of dt_str self rest of
             Inl e \<Rightarrow> Inl e
           | Inr orders \<Rightarrow> Inr (Order_info dt_str ord # orders)))"

definition book_get_orders ::
  "(int \<Rightarrow> string) \<Rightarrow> order_book \<Rightarrow> string \<Rightarrow> int \<Rightarrow> bool \<Rightarrow> error + pyval list" where
  "book_get_orders dt_str self symb limit id_only =
     (let finish = (\<lambda>order_list. if \<not> id_only then infos_of dt_str self order_list
                                 else Inr (map PInt order_list))
      in if symb = []
         then (if limit \<le> 0 then finish (sd_keys (time_dict self))
               else (let limit1 = min limit (int (length (book self)))
                     in finish (slice_from (sd_keys (time_dict self)) (- limit1))))
         else (case map_of (symbol_dict self) symb of
                 None \<Rightarrow> Inr []
               | Some d \<Rightarrow>
                   (if limit \<le> 0 then finish (sd_keys d)
                    else (let limit1 = min limit (int (sd_len d))
                          in finish (slice_from (sd_keys d) (- limit1))))))"

text \<open>A sequence of calls on an order book. A call that raises leaves the book as it
  is at the raise, and the next call goes on from there.\<close>

datatype book_op = Insert order | Remove order

fun apply_op :: "order_book \<Rightarrow> book_op \<Rightarrow> order_book \<times> (error + unit)" where
  "apply_op self (Insert ord) = insert_order self ord"
| "apply_op self (Remove ord) = remove_order self ord"

fun run_ops :: "order_book \<Rightarrow> book_op list \<Rightarrow> order_book" where
  "run_ops self [] = self"
| "run_ops self (c # cs) = run_ops (fst (apply_op self c)) cs"

fun op_order :: "book_op \<Rightarrow> order" where
  "op_order (Insert ord) = ord"
| "op_order (Remove ord) = ord"

subsection \<open>Well-formed sorted dictionaries and order books\<close>

text \<open>
  A sorted dictionary is well formed for a key function when its dictionary and its
  sorted list hold the same keys, each once, the list is sorted by the sort keys it
  keeps, and each kept sort key is what the key function returns now.
\<close>

definition sd_ok :: "(int \<Rightarrow> error + int) \<Rightarrow> sorted_dict \<Rightarrow> bool" where
  "sd_ok keyf d \<longleftrightarrow>
     distinct (map fst (sd_dict d)) \<and> distinct (sd_keys d)
     \<and> set (sd_keys d) = fst ` set (sd_dict d)
     \<and> sorted (map fst (sd_list d))
     \<and> (\<forall>(k, i) \<in> set (sd_list d). keyf i = Inr k)"

text \<open>
  An order book is well formed when its three indices are well-formed dictionaries over
  the same identifiers: the global time index holds the identifiers of the primary map,
  a per-symbol index holds only identifiers of orders of its symbol, and every order of
  the primary map is stored under its own identifier and listed in the index of its
  symbol.
\<close>

definition book_inv :: "order_book \<Rightarrow> bool" where
  "book_inv b \<longleftrightarrow>
     distinct (map fst (book b)) \<and> distinct (map fst (symbol_dict b))
     \<and> sd_ok (key_of b) (time_dict b)
     \<and> set (sd_keys (time_dict b)) = dom (map_of (book b))
     \<and> (\<forall>s d. map_of (symbol_dict b) s = Some d \<longrightarrow>
           sd_ok (key_of b) d
           \<and> (\<forall>i \<in> set (sd_keys d). \<exists>ord. map_of (book b) i = Some ord \<and> symbol ord = s))
     \<and> (\<forall>i ord. map_of (book b) i = Some ord \<longrightarrow>
           uid ord = i
           \<and> (\<exists>d. map_of (symbol_dict b) (symbol ord) = Some d \<and> i \<in> set (sd_keys d)))"

text \<open>
  Identifiers are drawn by \<^verbatim>\<open>uuid4\<close> and the attributes \<^verbatim>\<open>timestamp\<close> and
  \<^verbatim>\<open>symbol\<close> have no setter: two order values with one identifier are the same
  object, seen at two moments, and agree on timestamp and symbol. A list of orders has
  unique identifiers when this holds for each two of its members.
\<close>

definition same_object :: "order \<Rightarrow> order \<Rightarrow> bool" where
  "same_object a b \<longleftrightarrow> (uid a = uid b \<longrightarrow> timestamp a = timestamp b \<and> symbol a = symbol b)"

definition unique_ids :: "order list \<Rightarrow> bool" where
  "unique_ids os \<longleftrightarrow> (\<forall>a \<in> set os. \<forall>b \<in> set os. same_object a b)"

subsection \<open>Example values\<close>

text \<open>An order as its constructor builds it, and transactions of three sizes against it.\<close>

definition order_A :: order where
  "order_A = \<lparr>timestamp = 100, side = Buy, quote_name = ''BTC'', base_name = ''USD'',
      symbol = ''BTC/USD'', amount = 10, price = 5, uid = 1,
      status = Submitted, order_type = Limit, stop_price = 0, filled = 0,
      transactions = [], fee = []\<rparr>"




definition ex_dt_str :: "int \<Rightarrow> string" where
  "ex_dt_str t = ''1970-01-01 00:00:00.100000''"

definition args_1 :: order_args where
  "args_1 = (1, 100, Limit, Buy, ''BTC'', ''USD'', 10, 5, 0)"

definition args_2 :: order_args where
  "args_2 = (2, 50, Market, Sell, ''ETH'', ''USD'', 3, 7, 9)"

definition order_B :: order where
  "order_B = \<lparr>timestamp = 50, side = Sell, quote_name = ''ETH'', base_name = ''USD'',
      symbol = ''ETH/USD'', amount = 3, price = 0, uid = 2,
      status = Submitted, order_type = Market, stop_price = 0, filled = 0,
      transactions = [], fee = []\<rparr>"

text \<open>Order books after some calls: after inserting the order of identifier 1; after
  inserting two orders of one timestamp, identifier 2 first; after inserting two orders
  of different symbols; and that book after the first order is removed.\<close>

definition order_C :: order where
  "order_C = \<lparr>timestamp = 100, side = Sell, quote_name = ''BTC'', base_name = ''USD'',
      symbol = ''BTC/USD'', amount = 2, price = 6, uid = 2,
      status = Submitted, order_type = Limit, stop_price = 0, filled = 0,
      transactions = [], fee = []\<rparr>"

definition book_A :: order_book where
  "book_A = \<lparr>book = [(1, order_A)],
             time_dict = \<lparr>sd_dict = [(1, order_A)], sd_list = [(100, 1)]\<rparr>,
             symbol_dict = [(''BTC/USD'', \<lparr>sd_dict = [(1, order_A)], sd_list = [(100, 1)]\<rparr>)]\<rparr>"

definition book_CA :: order_book where
  "book_CA = \<lparr>book = [(2, order_C), (1, order_A)],
             time_dict = \<lparr>sd_dict = [(2, order_C), (1, order_A)], sd_list = [(100, 2), (100, 1)]\<rparr>,
             symbol_dict = [(''BTC/USD'',
                \<lparr>sd_dict = [(2, order_C), (1, order_A)], sd_list = [(100, 2), (100, 1)]\<rparr>)]\<rparr>"

definition book_AB :: order_book where
  "book_AB = \<lparr>book = [(1, order_A), (2, order_B)],
             time_dict = \<lparr>sd_dict = [(1, order_A), (2, order_B)], sd_list = [(50, 2), (100, 1)]\<rparr>,
             symbol_dict = [(''BTC/USD'', \<lparr>sd_dict = [(1, order_A)], sd_list = [(100, 1)]\<rparr>),
                            (''ETH/USD'', \<lparr>sd_dict = [(2, order_B)], sd_list = [(50, 2)]\<rparr>)]\<rparr>"

definition book_B :: order_book where
  "book_B = \<lparr>book = [(2, order_B)],
             time_dict = \<lparr>sd_dict = [(2, order_B)], sd_list = [(50, 2)]\<rparr>,
             symbol_dict = [(''BTC/USD'', \<lparr>sd_dict = [], sd_list = []\<rparr>),
                            (''ETH/USD'', \<lparr>sd_dict = [(2, order_B)], sd_list = [(50, 2)]\<rparr>)]\<rparr>"

section \<open>Order construction and lifecycle\<close>

lemma order_A_constructed: "Order_init 1 100 Limit Buy ''BTC'' ''USD'' 10 5 0 = Inr order_A"
  by (simp add: Order_init_def Transaction_init_def transaction.defs order.defs order_A_def)



text \<open>
  C7. \<^verbatim>\<open>open\<close> raises exactly on a market order and otherwise sets the status to Open,
  whatever the status was; \<^verbatim>\<open>accept\<close> raises exactly on an order that is not
  stop-limit and otherwise sets the status to Accepted; \<^verbatim>\<open>cancel\<close> never raises and
  sets the status to Cancelled, also on a filled or cancelled order. A call that raises
  (the AssertionError that the spec calls InvalidTransition) leaves the order as it was.
\<close>

theorem lifecycle_transitions:
  "Order_open ord = (if order_type ord = Market then (ord, Inl AssertionError)
                     else (ord\<lparr>status := Open\<rparr>, Inr ()))
   \<and> Order_accept ord = (if order_type ord \<noteq> StopLimit then (ord, Inl AssertionError)
                         else (ord\<lparr>status := Accepted\<rparr>, Inr ()))
   \<and> Order_cancel ord = (ord\<lparr>status := Cancelled\<rparr>, Inr ())"
  by (simp add: Order_open_def Order_accept_def Order_cancel_def)

theorem lifecycle_transitions_witness:
  "status (fst (Order_open order_A)) = Open \<and> snd (Order_open order_A) = Inr ()
   \<and> Order_accept order_A = (order_A, Inl AssertionError)
   \<and> status (fst (Order_cancel (order_A\<lparr>status := Filled\<rparr>))) = Cancelled"
  using lifecycle_transitions [of order_A] lifecycle_transitions [of "order_A\<lparr>status := Filled\<rparr>"]
  by (simp add: order_A_def)

section \<open>Recording fills\<close>









section \<open>Snapshots\<close>

lemma round_half_even_near: "\<bar>of_int (round_half_even y) - y\<bar> * 2 \<le> 1"
proof -
  define f where "f = \<lfloor>y\<rfloor>"
  define d where "d = y - of_int f"
  have d: "0 \<le> d" "d < 1"
    unfolding d_def f_def by linarith+
  have y: "y = of_int f + d"
    by (simp add: d_def)
  have r: "round_half_even y =
             (if d < 1 / 2 then f else if 1 / 2 < d then f + 1 else if even f then f else f + 1)"
    by (simp add: round_half_even_def Let_def f_def d_def)
  have "\<bar>of_int (round_half_even y) - (of_int f + d)\<bar> * 2 \<le> 1"
    unfolding r using d by (simp add: abs_if)
  then show ?thesis
    by (simp add: d_def)
qed

lemma py_round_rounded: "rounded_to n x (py_round x n)"
proof -
  have pos: "(0::rat) < 10 ^ n" by simp
  let ?y = "x * 10 ^ n"
  have "py_round x n - x = (of_int (round_half_even ?y) - ?y) / 10 ^ n"
    by (simp add: py_round_def diff_divide_distrib)
  then have "\<bar>py_round x n - x\<bar> * (2 * 10 ^ n) = \<bar>of_int (round_half_even ?y) - ?y\<bar> * 2"
    using pos by (simp add: abs_divide)
  with round_half_even_near [of ?y] have near: "\<bar>py_round x n - x\<bar> * (2 * 10 ^ n) \<le> 1"
    by simp
  have "\<exists>m::int. py_round x n = of_int m / 10 ^ n"
    unfolding py_round_def by (rule exI [of _ "round_half_even ?y"]) (rule refl)
  with near show ?thesis
    unfolding rounded_to_def by (rule conjI [rotated])
qed

text \<open>
  C8, as the claim states it, fails on one field name: the snapshot has no field
  \<open>transactions\<close>; the list of transaction snapshots is stored under \<open>transaction\<close>.
\<close>

theorem Order_info_fields_counterexample:
  "pyget (Order_info ex_dt_str order_A) ''transactions'' = None
   \<and> ''transactions'' \<notin> set (pykeys (Order_info ex_dt_str order_A))
   \<and> ''transaction'' \<in> set (pykeys (Order_info ex_dt_str order_A))"
  by (simp add: Order_info_def)

lemma OrderStatus_value_range:
  "OrderStatus_value s \<in> {''submitted'', ''accepted'', ''open'', ''filled'', ''cancelled''}"
  by (cases s) simp_all

lemma OrderType_value_range: "OrderType_value t \<in> {''limit'', ''market'', ''stop_limit''}"
  by (cases t) simp_all

lemma OrderSide_value_range: "OrderSide_value s \<in> {''buy'', ''sell''}"
  by (cases s) simp_all

lemma fee_rounded:
  "list_all2 (\<lambda>(a, v) (b, w). b = a \<and> (\<exists>r. w = PNum r \<and> rounded_to 8 v r)) fs
     (map (\<lambda>(a, v). (a, PNum (py_round v PREC))) fs)"
  by (induction fs) (auto simp: py_round_rounded PREC_def)

lemma pykeys_Order_info:
  "pykeys (Order_info dt_str ord) =
     [''id'', ''datetime'', ''timestamp'', ''status'', ''symbol'', ''type'', ''side'', ''price'',
      ''stop_price'', ''amount'', ''filled'', ''remaining'', ''transaction'', ''fee'']"
  by (simp add: Order_info_def)

lemma pyget_Order_info:
  "pyget (Order_info dt_str ord) ''id'' = Some (PInt (uid ord))"
  "pyget (Order_info dt_str ord) ''datetime'' = Some (PStr (dt_str (timestamp ord)))"
  "pyget (Order_info dt_str ord) ''timestamp'' = Some (PInt (timestamp ord))"
  "pyget (Order_info dt_str ord) ''status'' = Some (PStr (OrderStatus_value (status ord)))"
  "pyget (Order_info dt_str ord) ''symbol'' = Some (PStr (symbol ord))"
  "pyget (Order_info dt_str ord) ''type'' = Some (PStr (OrderType_value (order_type ord)))"
  "pyget (Order_info dt_str ord) ''side'' = Some (PStr (OrderSide_value (side ord)))"
  "pyget (Order_info dt_str ord) ''price'' = Some (PNum (py_round (price ord) 8))"
  "pyget (Order_info dt_str ord) ''stop_price'' = Some (PNum (py_round (stop_price ord) 8))"
  "pyget (Order_info dt_str ord) ''amount'' = Some (PNum (py_round (amount ord) 8))"
  "pyget (Order_info dt_str ord) ''filled'' = Some (PNum (py_round (filled ord) 8))"
  "pyget (Order_info dt_str ord) ''remaining'' =
     Some (PNum (py_round (amount ord - filled ord) 8))"
  "pyget (Order_info dt_str ord) ''transaction'' =
     Some (PList (map (Transaction_info dt_str) (transactions ord)))"
  "pyget (Order_info dt_str ord) ''fee'' =
     Some (PDict (map (\<lambda>(a, v). (a, PNum (py_round v PREC))) (fee ord)))"
  by (simp_all add: Order_info_def PREC_def remaining_def)

text \<open>
  C8, amended. The snapshot of an order has exactly the fields id, datetime, timestamp,
  status, symbol, type, side, price, stop_price, amount, filled, remaining, transaction
  and fee, in this order. The status is one of submitted, accepted, open, filled,
  cancelled; the type one of limit, market, stop_limit; the side buy or sell. The fields
  price, stop_price, amount, filled, remaining (which is amount minus filled) and every
  fee amount are rounded to 8 decimal places, and \<open>transaction\<close> is the list of the
  snapshots of the order's transactions, in their order.
\<close>

theorem Order_info_shape:
  "pykeys (Order_info dt_str ord) =
     [''id'', ''datetime'', ''timestamp'', ''status'', ''symbol'', ''type'', ''side'', ''price'',
      ''stop_price'', ''amount'', ''filled'', ''remaining'', ''transaction'', ''fee'']
   \<and> pyget (Order_info dt_str ord) ''id'' = Some (PInt (uid ord))
   \<and> pyget (Order_info dt_str ord) ''datetime'' = Some (PStr (dt_str (timestamp ord)))
   \<and> pyget (Order_info dt_str ord) ''timestamp'' = Some (PInt (timestamp ord))
   \<and> pyget (Order_info dt_str ord) ''symbol'' = Some (PStr (symbol ord))
   \<and> (\<exists>s. pyget (Order_info dt_str ord) ''status'' = Some (PStr s)
        \<and> s \<in> {''submitted'', ''accepted'', ''open'', ''filled'', ''cancelled''})
   \<and> (\<exists>s. pyget (Order_info dt_str ord) ''type'' = Some (PStr s)
        \<and> s \<in> {''limit'', ''market'', ''stop_limit''})
   \<and> (\<exists>s. pyget (Order_info dt_str ord) ''side'' = Some (PStr s) \<and> s \<in> {''buy'', ''sell''})
   \<and> (\<exists>v. pyget (Order_info dt_str ord) ''price'' = Some (PNum v) \<and> rounded_to 8 (price ord) v)
   \<and> (\<exists>v. pyget (Order_info dt_str ord) ''stop_price'' = Some (PNum v)
        \<and> rounded_to 8 (stop_price ord) v)
   \<and> (\<exists>v. pyget (Order_info dt_str ord) ''amount'' = Some (PNum v) \<and> rounded_to 8 (amount ord) v)
   \<and> (\<exists>v. pyget (Order_info dt_str ord) ''filled'' = Some (PNum v) \<and> rounded_to 8 (filled ord) v)
   \<and> (\<exists>v. pyget (Order_info dt_str ord) ''remaining'' = Some (PNum v)
        \<and> rounded_to 8 (amount ord - filled ord) v)
   \<and> pyget (Order_info dt_str ord) ''transaction'' =
        Some (PList (map (Transaction_info dt_str) (transactions ord)))
   \<and> (\<exists>fs. pyget (Order_info dt_str ord) ''fee'' = Some (PDict fs)
        \<and> list_all2 (\<lambda>(a, v) (b, w). b = a \<and> (\<exists>r. w = PNum r \<and> rounded_to 8 v r)) (fee ord) fs)"
  unfolding pykeys_Order_info pyget_Order_info
  using py_round_rounded [of 8] fee_rounded [of "fee ord"]
        OrderStatus_value_range [of "status ord"] OrderType_value_range [of "order_type ord"]
        OrderSide_value_range [of "side ord"]
  by (intro conjI refl exI) (rule refl | assumption)+

theorem Order_info_shape_witness:
  "pyget (Order_info ex_dt_str order_A) ''status'' = Some (PStr ''submitted'')
   \<and> pyget (Order_info ex_dt_str order_A) ''transaction'' = Some (PList [])
   \<and> pyget (Order_info ex_dt_str order_A) ''id'' = Some (PInt 1)
   \<and> length (pykeys (Order_info ex_dt_str order_A)) = 14"
  using Order_info_shape [of ex_dt_str order_A]
  by (simp add: order_A_def Order_info_def)


section \<open>Pending queue\<close>

lemma update_fresh: "k \<notin> fst ` set xs \<Longrightarrow> AList.update k v xs = xs @ [(k, v)]"
  by (induction xs) auto

lemma add_all_book:
  "add_all q args = (q1, rs) \<Longrightarrow> \<forall>r \<in> set rs. \<not> isl r \<Longrightarrow>
   distinct (map fst (book q) @ map fst args) \<Longrightarrow>
     \<exists>os. map construct args = map Inr os \<and> rs = map (\<lambda>ord. Inr (uid ord)) os
          \<and> book q1 = book q @ map (\<lambda>ord. (uid ord, ord)) os"
proof (induction args arbitrary: q rs q1)
  case Nil
  then show ?case by simp
next
  case (Cons a args)
  obtain new_id ts ty sd qn bn amt pr sp where a: "a = (new_id, ts, ty, sd, qn, bn, amt, pr, sp)"
    by (cases a) auto
  obtain qa r where step: "add_new_order q new_id ts ty sd qn bn amt pr sp = (qa, r)"
    by (cases "add_new_order q new_id ts ty sd qn bn amt pr sp") auto
  obtain qb rs2 where rest: "add_all qa args = (qb, rs2)"
    by (cases "add_all qa args") auto
  from Cons.prems(1) a step rest have q1: "q1 = qb" and rs: "rs = r # rs2" by auto
  from Cons.prems(2) rs have r_ok: "\<not> isl r" and rs2_ok: "\<forall>r \<in> set rs2. \<not> isl r" by auto
  from step r_ok obtain ord where
    ord: "Order_init new_id ts ty sd qn bn amt pr sp = Inr ord" and
    qa: "qa = q\<lparr>book := AList.update (uid ord) ord (book q)\<rparr>" and r: "r = Inr (uid ord)"
    by (auto simp: add_new_order_def split: sum.splits)
  from ord have uid_ord: "uid ord = new_id"
    by (auto simp: Order_init_def Transaction_init_def transaction.defs order.defs Let_def
             split: if_splits)
  from Cons.prems(3) a have fresh: "new_id \<notin> fst ` set (book q)" by auto
  have book_qa: "book qa = book q @ [(new_id, ord)]"
    using qa uid_ord update_fresh [OF fresh] by simp
  have "distinct (map fst (book qa) @ map fst args)"
    using Cons.prems(3) a book_qa by auto
  from Cons.IH [OF rest rs2_ok this] obtain os where
    os: "map construct args = map Inr os" "rs2 = map (\<lambda>ord. Inr (uid ord)) os"
        "book qb = book qa @ map (\<lambda>ord. (uid ord, ord)) os"
    by blast
  show ?case
    using os a ord rs r q1 book_qa uid_ord
    by (intro exI [of _ "ord # os"]) simp
qed

lemma pop_all_prefix:
  "book q = map (\<lambda>ord. (uid ord, ord)) os @ rest \<Longrightarrow>
     pop_all (length os) q = (q\<lparr>book := rest\<rparr>, map Inr os)"
proof (induction os arbitrary: q)
  case Nil
  then show ?case by simp
next
  case (Cons a os)
  then have "pop_order q = (q\<lparr>book := map (\<lambda>ord. (uid ord, ord)) os @ rest\<rparr>, Inr a)"
    by (simp add: pop_order_def)
  moreover have "pop_all (length os) (q\<lparr>book := map (\<lambda>ord. (uid ord, ord)) os @ rest\<rparr>)
                  = (q\<lparr>book := rest\<rparr>, map Inr os)"
    using Cons.IH [of "q\<lparr>book := map (\<lambda>ord. (uid ord, ord)) os @ rest\<rparr>"] by simp
  ultimately show ?case by simp
qed

text \<open>
  C9. N calls of \<^verbatim>\<open>add_new_order\<close> on a fresh queue that all return, with the
  pairwise distinct identifiers that \<^verbatim>\<open>uuid4\<close> draws, followed by N calls of
  \<^verbatim>\<open>pop_order\<close>: the pops return the N orders constructed, in the order in which
  they were added, and one more \<^verbatim>\<open>pop_order\<close> on the queue, now empty, raises
  (the KeyError of \<^verbatim>\<open>popitem\<close>, the spec's EmptyQueue) and leaves it empty.
\<close>

theorem queue_fifo:
  assumes "distinct (map fst args)"
      and "add_all OrderQueue_init args = (q, rs)"
      and "\<forall>r \<in> set rs. \<not> isl r"
  shows "\<exists>q1 os. map construct args = map Inr os
           \<and> rs = map (\<lambda>ord. Inr (uid ord)) os
           \<and> pop_all (length args) q = (q1, map Inr os)
           \<and> pop_order q1 = (q1, Inl KeyError)"
proof -
  from add_all_book [OF assms(2,3)] assms(1) obtain os where
    os: "map construct args = map Inr os" "rs = map (\<lambda>ord. Inr (uid ord)) os"
        "book q = map (\<lambda>ord. (uid ord, ord)) os"
    by (auto simp: OrderQueue_init_def)
  from os(1) have len: "length args = length os"
    using length_map by metis
  have "pop_all (length os) q = (q\<lparr>book := []\<rparr>, map Inr os)"
    using pop_all_prefix [of q os "[]"] os(3) by simp
  moreover have "pop_order (q\<lparr>book := []\<rparr>) = (q\<lparr>book := []\<rparr>, Inl KeyError)"
    by (simp add: pop_order_def)
  ultimately show ?thesis using os len by auto
qed

lemma add_all_example:
  "add_all OrderQueue_init [args_1, args_2] =
     (\<lparr>book = [(1, order_A), (2, order_B)]\<rparr>, [Inr 1, Inr 2])"
  by (simp add: args_1_def args_2_def add_new_order_def Order_init_def Transaction_init_def
        transaction.defs order.defs order_A_def order_B_def OrderQueue_init_def)

theorem queue_fifo_witness:
  "distinct (map fst [args_1, args_2])
   \<and> (\<exists>q1 os. map construct [args_1, args_2] = map Inr os
         \<and> [Inr 1, Inr 2 :: error + int] = map (\<lambda>ord. Inr (uid ord)) os
         \<and> pop_all (length [args_1, args_2]) \<lparr>book = [(1, order_A), (2, order_B)]\<rparr>
             = (q1, map Inr os)
         \<and> pop_order q1 = (q1, Inl KeyError))"
proof -
  have d: "distinct (map fst [args_1, args_2])"
    by (simp add: args_1_def args_2_def)
  have ok: "\<forall>r \<in> set [Inr 1, Inr 2 :: error + int]. \<not> isl r"
    by simp
  show ?thesis
    using d queue_fifo [OF d add_all_example ok] by (rule conjI)
qed

section \<open>Order book\<close>

subsection \<open>The sorted list\<close>

lemma take_bisect:
  "take (length (takeWhile P (map fst l))) l = takeWhile (\<lambda>x. P (fst x)) l"
  by (induction l) auto

lemma drop_bisect:
  "drop (length (takeWhile P (map fst l))) l = dropWhile (\<lambda>x. P (fst x)) l"
  by (induction l) auto

lemma length_bisect:
  "length (takeWhile P (map fst l)) = length (takeWhile (\<lambda>x. P (fst x)) l)"
  by (induction l) auto

lemma skl_add_Inr:
  assumes "keyf v = Inr k"
  shows "\<exists>l1 l2. l = l1 @ l2 \<and> skl_add keyf v l = Inr (l1 @ (k, v) # l2)
           \<and> (\<forall>x \<in> set l1. fst x \<le> k) \<and> (sorted (map fst l) \<longrightarrow> (\<forall>x \<in> set l2. k < fst x))"
proof -
  let ?P = "\<lambda>x::int \<times> int. fst x \<le> k"
  let ?l1 = "takeWhile ?P l" and ?l2 = "dropWhile ?P l"
  have 1: "l = ?l1 @ ?l2" by simp
  have 2: "skl_add keyf v l = Inr (?l1 @ (k, v) # ?l2)"
    using assms by (simp add: skl_add_def bisect_right_def take_bisect drop_bisect)
  have 3: "\<forall>x \<in> set ?l1. fst x \<le> k"
    by (auto dest: set_takeWhileD)
  have 4: "\<forall>x \<in> set ?l2. k < fst x" if s: "sorted (map fst l)"
  proof (cases ?l2)
    case Nil
    show ?thesis unfolding Nil by simp
  next
    case (Cons y ys)
    then have y: "\<not> ?P y"
      using hd_dropWhile [of ?P l] by (metis list.sel(1) list.distinct(1))
    from s have "sorted (map fst (?l1 @ ?l2))" by simp
    then have "sorted (map fst ?l2)"
      by (simp only: map_append sorted_append)
    with Cons have "\<forall>x \<in> set ys. fst y \<le> fst x" by auto
    with y Cons show ?thesis by auto
  qed
  from 1 2 3 4 show ?thesis by blast
qed

lemma skl_scan_found:
  "sorted (map fst l) \<Longrightarrow> (k, v) \<in> set l \<Longrightarrow> \<forall>x \<in> set l. k \<le> fst x \<Longrightarrow>
     \<exists>l1 l2. l = l1 @ (k, v) # l2 \<and> skl_scan k v l = Inr (l1 @ l2)"
proof (induction l)
  case Nil
  then show ?case by simp
next
  case (Cons a l)
  obtain k' v' where a: "a = (k', v')" by (cases a)
  show ?case
  proof (cases "k' = k \<and> v' = v")
    case True
    with a show ?thesis by (intro exI [of _ "[]"] exI [of _ l]) simp
  next
    case False
    with Cons.prems(2) a have mem: "(k, v) \<in> set l" by auto
    from Cons.prems(1) a mem have "k' \<le> k" by auto
    moreover from Cons.prems(3) a have "k \<le> k'" by simp
    ultimately have k': "k' = k" by simp
    with False have v': "v' \<noteq> v" by simp
    from Cons.prems have "sorted (map fst l)" "\<forall>x \<in> set l. k \<le> fst x" by auto
    from Cons.IH [OF this(1) mem this(2)] obtain l1 l2 where
      "l = l1 @ (k, v) # l2" "skl_scan k v l = Inr (l1 @ l2)" by blast
    with a k' v' show ?thesis
      by (intro exI [of _ "a # l1"] exI [of _ l2]) simp
  qed
qed

lemma skl_remove_found:
  assumes key: "keyf v = Inr k" and s: "sorted (map fst l)" and mem: "(k, v) \<in> set l"
  shows "\<exists>l1 l2. l = l1 @ (k, v) # l2 \<and> skl_remove keyf v l = Inr (l1 @ l2)"
proof -
  let ?P = "\<lambda>x::int \<times> int. fst x < k"
  let ?A = "takeWhile ?P l" and ?B = "dropWhile ?P l"
  have l: "l = ?A @ ?B" by simp
  have "(k, v) \<notin> set ?A" by (auto dest: set_takeWhileD)
  with mem l have memB: "(k, v) \<in> set ?B"
    by (metis Un_iff set_append)
  then have ne: "?B \<noteq> []" by (metis empty_iff empty_set)
  have lenA: "length ?A < length l"
    using ne l by (metis append_Nil2 length_append less_add_same_cancel1 length_greater_0_conv)
  from s have sB: "sorted (map fst ?B)"
    by (metis l map_append sorted_append)
  have geB: "\<forall>x \<in> set ?B. k \<le> fst x"
  proof (cases ?B)
    case Nil
    with ne show ?thesis by simp
  next
    case (Cons y ys)
    then have "\<not> ?P y"
      using hd_dropWhile [of ?P l] by (metis list.sel(1) list.distinct(1))
    moreover from sB Cons have "\<forall>x \<in> set ys. fst y \<le> fst x" by auto
    ultimately show ?thesis using Cons by auto
  qed
  from skl_scan_found [OF sB memB geB] obtain l1 l2 where
    B: "?B = l1 @ (k, v) # l2" and scan: "skl_scan k v ?B = Inr (l1 @ l2)" by blast
  have "l \<noteq> []" using mem by auto
  then have "skl_remove keyf v l = Inr (?A @ l1 @ l2)"
    using key lenA scan
    by (simp add: skl_remove_def bisect_left_def length_bisect Let_def
                  takeWhile_eq_take [symmetric] dropWhile_eq_drop [symmetric])
  moreover have "l = (?A @ l1) @ (k, v) # l2"
    using l B by (metis append_assoc)
  ultimately show ?thesis
    by (metis append_assoc)
qed

subsection \<open>The sorted dictionary\<close>

lemma sd_ok_init: "sd_ok keyf SortedDict_init"
  by (simp add: sd_ok_def SortedDict_init_def sd_keys_def)

lemma sd_ok_cong:
  "sd_ok keyf d \<Longrightarrow> \<forall>i \<in> set (sd_keys d). keyf' i = keyf i \<Longrightarrow> sd_ok keyf' d"
  unfolding sd_ok_def sd_keys_def by fastforce

lemma sd_ok_key:
  assumes "sd_ok keyf d" and "i \<in> set (sd_keys d)"
  shows "\<exists>t. (t, i) \<in> set (sd_list d) \<and> keyf i = Inr t"
proof -
  from assms(2) obtain t where t: "(t, i) \<in> set (sd_list d)"
    by (auto simp: sd_keys_def)
  from assms(1) have "\<forall>(k, j) \<in> set (sd_list d). keyf j = Inr k"
    by (simp add: sd_ok_def)
  with t have "keyf i = Inr t" by blast
  with t show ?thesis by blast
qed

lemma sd_ok_dict_keys:
  "sd_ok keyf d \<Longrightarrow> (map_of (sd_dict d) i = None) = (i \<notin> set (sd_keys d))"
  unfolding sd_ok_def by (simp add: map_of_eq_None_iff)

lemma sd_setitem_ok:
  assumes ok: "sd_ok keyf d" and key: "keyf k = Inr t"
  shows "\<exists>d'. sd_setitem keyf d k v = (d', Inr ()) \<and> sd_ok keyf d'
           \<and> set (sd_keys d') = insert k (set (sd_keys d))"
proof (cases "map_of (sd_dict d) k = None")
  case True
  with ok have fresh: "k \<notin> set (sd_keys d)" by (simp add: sd_ok_dict_keys)
  from skl_add_Inr [of keyf k t "sd_list d", OF key] obtain l1 l2 where
    l: "sd_list d = l1 @ l2" and add: "skl_add keyf k (sd_list d) = Inr (l1 @ (t, k) # l2)" and
    le: "\<forall>x \<in> set l1. fst x \<le> t" and
    gt: "sorted (map fst (sd_list d)) \<longrightarrow> (\<forall>x \<in> set l2. t < fst x)"
    by blast
  let ?d = "d\<lparr>sd_list := l1 @ (t, k) # l2, sd_dict := AList.update k v (sd_dict d)\<rparr>"
  have res: "sd_setitem keyf d k v = (?d, Inr ())"
    using True add by (simp add: sd_setitem_def)
  have keys: "sd_keys ?d = map snd l1 @ k # map snd l2"
    by (simp add: sd_keys_def)
  have keys0: "sd_keys d = map snd l1 @ map snd l2"
    using l by (simp add: sd_keys_def)
  from ok have s: "sorted (map fst l1 @ map fst l2)"
    using l by (simp add: sd_ok_def)
  with gt l have gt': "\<forall>x \<in> set l2. t < fst x" by simp
  have "sorted (map fst l1 @ t # map fst l2)"
    using s le gt' by (fastforce simp: sorted_append)
  moreover have "distinct (map snd l1 @ k # map snd l2)"
    using ok fresh keys0 by (auto simp: sd_ok_def)
  moreover have "set (map snd l1 @ k # map snd l2) = fst ` set (AList.update k v (sd_dict d))"
    using ok keys0 by (auto simp: sd_ok_def dom_update)
  moreover have "\<forall>(k', i) \<in> set (l1 @ (t, k) # l2). keyf i = Inr k'"
    using ok l key by (auto simp: sd_ok_def)
  moreover have "distinct (map fst (AList.update k v (sd_dict d)))"
    using ok by (simp add: sd_ok_def distinct_update)
  ultimately have "sd_ok keyf ?d"
    by (simp add: sd_ok_def keys)
  moreover have "set (sd_keys ?d) = insert k (set (sd_keys d))"
    by (simp add: keys keys0)
  ultimately show ?thesis using res by blast
next
  case False
  with ok have mem: "k \<in> set (sd_keys d)" by (simp add: sd_ok_dict_keys)
  let ?d = "d\<lparr>sd_dict := AList.update k v (sd_dict d)\<rparr>"
  have res: "sd_setitem keyf d k v = (?d, Inr ())"
    by (simp add: sd_setitem_def False)
  have keys: "sd_keys ?d = sd_keys d"
    by (simp add: sd_keys_def)
  have "fst ` set (AList.update k v (sd_dict d)) = fst ` set (sd_dict d)"
    using ok mem by (auto simp: sd_ok_def dom_update)
  then have "sd_ok keyf ?d"
    using ok by (simp add: sd_ok_def keys distinct_update)
  moreover have "set (sd_keys ?d) = insert k (set (sd_keys d))"
    using mem by (auto simp: keys)
  ultimately show ?thesis using res by blast
qed

lemma sd_delitem_ok:
  assumes ok: "sd_ok keyf d" and mem: "k \<in> set (sd_keys d)"
  shows "\<exists>d'. sd_delitem keyf d k = (d', Inr ()) \<and> sd_ok keyf d'
           \<and> set (sd_keys d') = set (sd_keys d) - {k}"
proof -
  from sd_ok_key [OF ok mem] obtain t where
    t: "(t, k) \<in> set (sd_list d)" and key: "keyf k = Inr t" by blast
  from ok have s: "sorted (map fst (sd_list d))" by (simp add: sd_ok_def)
  from skl_remove_found [of keyf k t "sd_list d", OF key s t] obtain l1 l2 where
    l: "sd_list d = l1 @ (t, k) # l2" and rem: "skl_remove keyf k (sd_list d) = Inr (l1 @ l2)"
    by blast
  let ?d = "d\<lparr>sd_dict := AList.delete k (sd_dict d), sd_list := l1 @ l2\<rparr>"
  have present: "map_of (sd_dict d) k \<noteq> None"
    using ok mem by (simp add: sd_ok_dict_keys)
  have res: "sd_delitem keyf d k = (?d, Inr ())"
    using present rem by (simp add: sd_delitem_def Let_def)
  have keys0: "sd_keys d = map snd l1 @ k # map snd l2"
    using l by (simp add: sd_keys_def)
  have keys: "sd_keys ?d = map snd l1 @ map snd l2"
    by (simp add: sd_keys_def)
  from ok keys0 have d0: "distinct (map snd l1 @ k # map snd l2)"
    by (simp add: sd_ok_def)
  then have setk: "set (sd_keys ?d) = set (sd_keys d) - {k}"
    by (auto simp: keys keys0)
  have "fst ` set (AList.delete k (sd_dict d)) = fst ` set (sd_dict d) - {k}"
    by (metis delete_keys list.set_map set_removeAll)
  with ok setk have "set (sd_keys ?d) = fst ` set (AList.delete k (sd_dict d))"
    by (simp add: sd_ok_def)
  moreover have "distinct (sd_keys ?d)"
    using d0 by (auto simp: keys)
  moreover have "sorted (map fst (l1 @ l2))"
    using s l by (auto simp: sorted_append)
  moreover have "\<forall>(k', i) \<in> set (l1 @ l2). keyf i = Inr k'"
    using ok l by (auto simp: sd_ok_def)
  moreover have "distinct (map fst (AList.delete k (sd_dict d)))"
    using ok by (simp add: sd_ok_def distinct_delete)
  ultimately have "sd_ok keyf ?d"
    by (simp add: sd_ok_def)
  with res setk show ?thesis by blast
qed

lemma sd_delitem_absent:
  "sd_ok keyf d \<Longrightarrow> k \<notin> set (sd_keys d) \<Longrightarrow> sd_delitem keyf d k = (d, Inl KeyError)"
  by (simp add: sd_delitem_def sd_ok_dict_keys)

subsection \<open>Insertion and removal keep the book well formed\<close>

lemma book_invI:
  assumes "distinct (map fst (book b))" and "distinct (map fst (symbol_dict b))"
    and "sd_ok (key_of b) (time_dict b)"
    and "set (sd_keys (time_dict b)) = dom (map_of (book b))"
    and "\<And>s d. map_of (symbol_dict b) s = Some d \<Longrightarrow> sd_ok (key_of b) d"
    and "\<And>s d i. map_of (symbol_dict b) s = Some d \<Longrightarrow> i \<in> set (sd_keys d) \<Longrightarrow>
           \<exists>ord. map_of (book b) i = Some ord \<and> symbol ord = s"
    and "\<And>i ord. map_of (book b) i = Some ord \<Longrightarrow> uid ord = i"
    and "\<And>i ord. map_of (book b) i = Some ord \<Longrightarrow>
           \<exists>d. map_of (symbol_dict b) (symbol ord) = Some d \<and> i \<in> set (sd_keys d)"
  shows "book_inv b"
  unfolding book_inv_def using assms by blast

lemma book_inv_distinct:
  "book_inv b \<Longrightarrow> distinct (map fst (book b)) \<and> distinct (map fst (symbol_dict b))"
  by (simp add: book_inv_def)

lemma book_inv_time:
  "book_inv b \<Longrightarrow> sd_ok (key_of b) (time_dict b)
     \<and> set (sd_keys (time_dict b)) = dom (map_of (book b))"
  by (simp add: book_inv_def)

lemma book_inv_symbol:
  "book_inv b \<Longrightarrow> map_of (symbol_dict b) s = Some d \<Longrightarrow>
     sd_ok (key_of b) d
     \<and> (\<forall>i \<in> set (sd_keys d). \<exists>ord. map_of (book b) i = Some ord \<and> symbol ord = s)"
  unfolding book_inv_def by blast

lemma book_inv_order:
  "book_inv b \<Longrightarrow> map_of (book b) i = Some ord \<Longrightarrow>
     uid ord = i \<and> (\<exists>d. map_of (symbol_dict b) (symbol ord) = Some d \<and> i \<in> set (sd_keys d))"
  unfolding book_inv_def by blast

lemma book_inv_init: "book_inv OrderBook_init"
  by (simp add: book_inv_def OrderBook_init_def sd_ok_init key_of_def)
     (simp add: SortedDict_init_def sd_keys_def)

lemma set_symbol_item_ok:
  assumes d0: "map_of (symbol_dict b) s = Some d0" and ok: "sd_ok (key_of b) d0"
    and key: "key_of b i = Inr t"
  shows "\<exists>d'. set_symbol_item b s i ord
                = (b\<lparr>symbol_dict := AList.update s d' (symbol_dict b)\<rparr>, Inr ())
           \<and> sd_ok (key_of b) d' \<and> set (sd_keys d') = insert i (set (sd_keys d0))"
proof -
  from sd_setitem_ok [of "key_of b" d0 i t ord, OF ok key] obtain d' where
    d': "sd_setitem (key_of b) d0 i ord = (d', Inr ())" "sd_ok (key_of b) d'"
        "set (sd_keys d') = insert i (set (sd_keys d0))"
    by blast
  from d'(1) d0 have "set_symbol_item b s i ord
                = (b\<lparr>symbol_dict := AList.update s d' (symbol_dict b)\<rparr>, Inr ())"
    by (simp add: set_symbol_item_def)
  with d'(2,3) show ?thesis by blast
qed

lemma insert_order_ok:
  assumes inv: "book_inv b"
    and compat: "\<And>ord'. map_of (book b) (uid ord) = Some ord' \<Longrightarrow>
                   timestamp ord' = timestamp ord \<and> symbol ord' = symbol ord"
  shows "\<exists>b'. insert_order b ord = (b', Inr ()) \<and> book_inv b'
           \<and> map_of (book b') = (map_of (book b))(uid ord \<mapsto> ord)"
proof -
  define i where "i = uid ord"
  define s where "s = symbol ord"
  define b1 where "b1 = b\<lparr>book := AList.update i ord (book b)\<rparr>"
  let ?B = "map_of (book b)" and ?S = "map_of (symbol_dict b)"
  have B1: "map_of (book b1) = ?B(i \<mapsto> ord)"
    by (simp add: b1_def update_conv')
  have key1: "key_of b1 i = Inr (timestamp ord)"
    by (simp add: key_of_def B1)
  have agree: "key_of b1 j = key_of b j" if "j \<in> dom ?B" for j
    using that compat by (auto simp: key_of_def B1 i_def)
  from book_inv_time [OF inv] have t_ok: "sd_ok (key_of b) (time_dict b)"
    and t_ids: "set (sd_keys (time_dict b)) = dom ?B" by simp_all
  have "sd_ok (key_of b1) (time_dict b)"
    by (rule sd_ok_cong [OF t_ok]) (simp add: t_ids agree)
  from sd_setitem_ok [of "key_of b1" "time_dict b" i "timestamp ord" ord, OF this key1]
  obtain td where
    td: "sd_setitem (key_of b1) (time_dict b) i ord = (td, Inr ())" "sd_ok (key_of b1) td"
        "set (sd_keys td) = insert i (set (sd_keys (time_dict b)))"
    by blast
  define b3 where "b3 = (if ?S s = None
      then b1\<lparr>time_dict := td, symbol_dict := AList.update s SortedDict_init (symbol_dict b)\<rparr>
      else b1\<lparr>time_dict := td\<rparr>)"
  define d0 where "d0 = (case ?S s of None \<Rightarrow> SortedDict_init | Some d \<Rightarrow> d)"
  have step: "insert_order b ord = set_symbol_item b3 s i ord"
    using td(1) by (simp add: insert_order_def Let_def i_def s_def b1_def b3_def)
  have k3: "key_of b3 = key_of b1"
    by (auto simp: b3_def key_of_def fun_eq_iff)
  have book3: "book b3 = book b1" and time3: "time_dict b3 = td"
    by (simp_all add: b3_def)
  have S3: "map_of (symbol_dict b3) = ?S(s \<mapsto> d0)"
    by (auto simp: b3_def b1_def d0_def update_conv' fun_eq_iff split: option.splits)
  have dist3: "distinct (map fst (symbol_dict b3))"
    using book_inv_distinct [OF inv] by (simp add: b3_def b1_def distinct_update)
  have d0_keys: "\<exists>o'. ?B j = Some o' \<and> symbol o' = s" if "j \<in> set (sd_keys d0)" for j
  proof (cases "?S s")
    case None
    with that show ?thesis by (simp add: d0_def SortedDict_init_def sd_keys_def)
  next
    case (Some d)
    with that book_inv_symbol [OF inv Some] show ?thesis by (simp add: d0_def)
  qed
  have d0_ok: "sd_ok (key_of b1) d0"
  proof (cases "?S s")
    case None
    then show ?thesis by (simp add: d0_def sd_ok_init)
  next
    case (Some d)
    from book_inv_symbol [OF inv Some] have "sd_ok (key_of b) d" by simp
    then have "sd_ok (key_of b) d0" using Some by (simp add: d0_def)
    then show ?thesis
    proof (rule sd_ok_cong)
      show "\<forall>j \<in> set (sd_keys d0). key_of b1 j = key_of b j"
        using d0_keys agree by blast
    qed
  qed
  have "map_of (symbol_dict b3) s = Some d0" by (simp add: S3)
  from set_symbol_item_ok [of b3 s d0 i "timestamp ord" ord, OF this]
       d0_ok key1 k3
  obtain d' where
    res: "set_symbol_item b3 s i ord
            = (b3\<lparr>symbol_dict := AList.update s d' (symbol_dict b3)\<rparr>, Inr ())"
    and d'_ok: "sd_ok (key_of b1) d'"
    and d'_keys: "set (sd_keys d') = insert i (set (sd_keys d0))"
    by auto
  define b' where "b' = b3\<lparr>symbol_dict := AList.update s d' (symbol_dict b3)\<rparr>"
  have B': "map_of (book b') = ?B(i \<mapsto> ord)"
    by (simp add: b'_def book3 B1)
  have S': "map_of (symbol_dict b') = ?S(s \<mapsto> d')"
    by (simp add: b'_def update_conv' S3)
  have k': "key_of b' = key_of b1"
    by (simp add: b'_def key_of_def fun_eq_iff book3)
  have time': "time_dict b' = td"
    by (simp add: b'_def time3)
  have other_key: "key_of b1 j = key_of b j" if "?B j = Some o'" for j o'
    using that agree by blast
  have "book_inv b'"
  proof (rule book_invI)
    show "distinct (map fst (book b'))"
      using book_inv_distinct [OF inv] by (simp add: b'_def book3 b1_def distinct_update)
    show "distinct (map fst (symbol_dict b'))"
      using dist3 by (simp add: b'_def distinct_update)
    show "sd_ok (key_of b') (time_dict b')"
      using td(2) by (simp add: k' time')
    show "set (sd_keys (time_dict b')) = dom (map_of (book b'))"
      by (simp add: time' td(3) t_ids B')
  next
    fix s' d
    assume a: "map_of (symbol_dict b') s' = Some d"
    show "sd_ok (key_of b') d"
    proof (cases "s' = s")
      case True
      with a S' d'_ok show ?thesis by (simp add: k')
    next
      case False
      with a S' have old: "?S s' = Some d" by simp
      from book_inv_symbol [OF inv old] have ok: "sd_ok (key_of b) d"
        and ids: "\<forall>j \<in> set (sd_keys d). \<exists>o'. ?B j = Some o' \<and> symbol o' = s'" by simp_all
      have "sd_ok (key_of b1) d"
        using ok
      proof (rule sd_ok_cong)
        show "\<forall>j \<in> set (sd_keys d). key_of b1 j = key_of b j"
          using ids other_key by blast
      qed
      then show ?thesis by (simp add: k')
    qed
  next
    fix s' d j
    assume a: "map_of (symbol_dict b') s' = Some d" and j: "j \<in> set (sd_keys d)"
    show "\<exists>o'. map_of (book b') j = Some o' \<and> symbol o' = s'"
    proof (cases "s' = s")
      case True
      with a S' have d: "d = d'" by simp
      show ?thesis
      proof (cases "j = i")
        case True
        then show ?thesis using \<open>s' = s\<close> by (simp add: B' s_def)
      next
        case False
        with j d d'_keys have "j \<in> set (sd_keys d0)" by simp
        from d0_keys [OF this] False \<open>s' = s\<close> show ?thesis by (simp add: B')
      qed
    next
      case False
      with a S' have old: "?S s' = Some d" by simp
      from book_inv_symbol [OF inv old] j obtain o' where
        o': "?B j = Some o'" "symbol o' = s'" by blast
      have "j \<noteq> i"
      proof
        assume "j = i"
        with o' compat [of o'] have "symbol o' = s" by (simp add: i_def s_def)
        with o'(2) False show False by simp
      qed
      with o' show ?thesis by (simp add: B')
    qed
  next
    fix j o'
    assume a: "map_of (book b') j = Some o'"
    show "uid o' = j"
    proof (cases "j = i")
      case True
      with a B' show ?thesis by (simp add: i_def)
    next
      case False
      with a B' have "?B j = Some o'" by simp
      with book_inv_order [OF inv] show ?thesis by blast
    qed
    show "\<exists>d. map_of (symbol_dict b') (symbol o') = Some d \<and> j \<in> set (sd_keys d)"
    proof (cases "j = i")
      case True
      with a B' have "o' = ord" by simp
      then show ?thesis using True by (simp add: S' s_def d'_keys)
    next
      case False
      with a B' have old: "?B j = Some o'" by simp
      from book_inv_order [OF inv old] obtain d where
        d: "?S (symbol o') = Some d" "j \<in> set (sd_keys d)" by blast
      show ?thesis
      proof (cases "symbol o' = s")
        case True
        with d have "d0 = d" by (simp add: d0_def)
        with d True show ?thesis by (simp add: S' d'_keys)
      next
        case False
        with d show ?thesis by (simp add: S')
      qed
    qed
  qed
  moreover have "insert_order b ord = (b', Inr ())"
    using step res by (simp add: b'_def)
  ultimately show ?thesis
    using B' by (auto simp: i_def)
qed

lemma remove_order_absent:
  assumes inv: "book_inv b" and absent: "map_of (book b) (uid ord) = None"
  shows "remove_order b ord = (b, Inl KeyError) \<and> remove_order_trace b ord = [b]"
proof -
  from book_inv_time [OF inv] absent have ok: "sd_ok (key_of b) (time_dict b)"
    and "uid ord \<notin> set (sd_keys (time_dict b))" by auto
  then have "sd_delitem (key_of b) (time_dict b) (uid ord) = (time_dict b, Inl KeyError)"
    by (rule sd_delitem_absent)
  then have "del_time_item ord b = (b, Inl KeyError)"
    by (simp add: del_time_item_def)
  then show ?thesis
    by (simp add: remove_order_def remove_order_trace_def remove_order_steps_def)
qed

lemma remove_order_present:
  assumes inv: "book_inv b" and present: "map_of (book b) (uid ord) = Some ord'"
    and sym: "symbol ord = symbol ord'"
  shows "\<exists>td d d'.
           sd_delitem (key_of b) (time_dict b) (uid ord) = (td, Inr ())
         \<and> set (sd_keys td) = set (sd_keys (time_dict b)) - {uid ord}
         \<and> map_of (symbol_dict b) (symbol ord) = Some d \<and> uid ord \<in> set (sd_keys d)
         \<and> sd_delitem (key_of b) d (uid ord) = (d', Inr ())
         \<and> set (sd_keys d') = set (sd_keys d) - {uid ord}
         \<and> remove_order_trace b ord =
             [b\<lparr>time_dict := td\<rparr>,
              b\<lparr>time_dict := td, symbol_dict := AList.update (symbol ord) d' (symbol_dict b)\<rparr>,
              b\<lparr>time_dict := td, symbol_dict := AList.update (symbol ord) d' (symbol_dict b),
                book := AList.delete (uid ord) (book b)\<rparr>]
         \<and> remove_order b ord =
             (b\<lparr>time_dict := td, symbol_dict := AList.update (symbol ord) d' (symbol_dict b),
                book := AList.delete (uid ord) (book b)\<rparr>, Inr ())
         \<and> book_inv (b\<lparr>time_dict := td,
                         symbol_dict := AList.update (symbol ord) d' (symbol_dict b),
                         book := AList.delete (uid ord) (book b)\<rparr>)"
proof -
  define i where "i = uid ord"
  define s where "s = symbol ord"
  let ?B = "map_of (book b)" and ?S = "map_of (symbol_dict b)"
  have Bi: "?B i = Some ord'" using present by (simp add: i_def)
  from book_inv_time [OF inv] have t_ok: "sd_ok (key_of b) (time_dict b)"
    and t_ids: "set (sd_keys (time_dict b)) = dom ?B" by simp_all
  from Bi t_ids have "i \<in> set (sd_keys (time_dict b))" by auto
  from sd_delitem_ok [OF t_ok this] obtain td where
    td: "sd_delitem (key_of b) (time_dict b) i = (td, Inr ())" "sd_ok (key_of b) td"
        "set (sd_keys td) = set (sd_keys (time_dict b)) - {i}"
    by blast
  from book_inv_order [OF inv Bi] sym obtain d where
    d: "?S s = Some d" "i \<in> set (sd_keys d)" by (auto simp: s_def)
  from book_inv_symbol [OF inv d(1)] have d_ok: "sd_ok (key_of b) d"
    and d_ids: "\<forall>j \<in> set (sd_keys d). \<exists>o'. ?B j = Some o' \<and> symbol o' = s" by simp_all
  from sd_delitem_ok [OF d_ok d(2)] obtain d' where
    d': "sd_delitem (key_of b) d i = (d', Inr ())" "sd_ok (key_of b) d'"
        "set (sd_keys d') = set (sd_keys d) - {i}"
    by blast
  define b1 where "b1 = b\<lparr>time_dict := td\<rparr>"
  define b2 where "b2 = b\<lparr>time_dict := td, symbol_dict := AList.update s d' (symbol_dict b)\<rparr>"
  define b3 where "b3 = b\<lparr>time_dict := td, symbol_dict := AList.update s d' (symbol_dict b),
                          book := AList.delete i (book b)\<rparr>"
  have k1: "key_of b1 = key_of b" and k2: "key_of b2 = key_of b"
    by (simp_all add: b1_def b2_def key_of_def fun_eq_iff)
  have s1: "del_time_item ord b = (b1, Inr ())"
    using td(1) by (simp add: del_time_item_def b1_def i_def)
  have s2: "del_symbol_item ord b1 = (b2, Inr ())"
    using d(1) d'(1) by (simp add: del_symbol_item_def b1_def b2_def i_def s_def k1 [unfolded b1_def])
  have s3: "del_book_item ord b2 = (b3, Inr ())"
    using Bi by (simp add: del_book_item_def b2_def b3_def i_def)
  have run: "run_steps (remove_order_steps ord) b = ([b1, b2, b3], Inr ())"
    by (simp add: remove_order_steps_def s1 s2 s3)
  have B3: "map_of (book b3) = ?B(i := None)"
    by (simp add: b3_def delete_conv')
  have S3: "map_of (symbol_dict b3) = ?S(s \<mapsto> d')"
    by (simp add: b3_def update_conv')
  have time3: "time_dict b3 = td"
    by (simp add: b3_def)
  have k3: "key_of b3 j = key_of b j" if "j \<noteq> i" for j
    using that by (simp add: key_of_def B3)
  have cong3: "sd_ok (key_of b3) x" if "sd_ok (key_of b) x" and "i \<notin> set (sd_keys x)" for x
    using that(1)
  proof (rule sd_ok_cong)
    show "\<forall>j \<in> set (sd_keys x). key_of b3 j = key_of b j"
      using that(2) k3 by metis
  qed
  have "book_inv b3"
  proof (rule book_invI)
    show "distinct (map fst (book b3))"
      using book_inv_distinct [OF inv] by (simp add: b3_def distinct_delete)
    show "distinct (map fst (symbol_dict b3))"
      using book_inv_distinct [OF inv] by (simp add: b3_def distinct_update)
    show "sd_ok (key_of b3) (time_dict b3)"
      unfolding time3 by (rule cong3 [OF td(2)]) (simp add: td(3))
    show "set (sd_keys (time_dict b3)) = dom (map_of (book b3))"
      by (simp add: time3 td(3) t_ids B3)
  next
    fix s' x
    assume a: "map_of (symbol_dict b3) s' = Some x"
    show "sd_ok (key_of b3) x"
    proof (cases "s' = s")
      case True
      with a S3 have "x = d'" by simp
      then show ?thesis using cong3 [OF d'(2)] d'(3) by simp
    next
      case False
      with a S3 have old: "?S s' = Some x" by simp
      from book_inv_symbol [OF inv old] have ok: "sd_ok (key_of b) x"
        and ids: "\<forall>j \<in> set (sd_keys x). \<exists>o'. ?B j = Some o' \<and> symbol o' = s'" by simp_all
      have "i \<notin> set (sd_keys x)"
      proof
        assume "i \<in> set (sd_keys x)"
        with ids Bi have "symbol ord' = s'" by auto
        with sym False show False by (simp add: s_def)
      qed
      with ok show ?thesis by (rule cong3)
    qed
  next
    fix s' x j
    assume a: "map_of (symbol_dict b3) s' = Some x" and j: "j \<in> set (sd_keys x)"
    show "\<exists>o'. map_of (book b3) j = Some o' \<and> symbol o' = s'"
    proof (cases "s' = s")
      case True
      with a S3 have "x = d'" by simp
      with j d'(3) have "j \<in> set (sd_keys d)" "j \<noteq> i" by auto
      with d_ids True show ?thesis by (simp add: B3)
    next
      case False
      with a S3 have old: "?S s' = Some x" by simp
      from book_inv_symbol [OF inv old] j obtain o' where
        o': "?B j = Some o'" "symbol o' = s'" by blast
      have "j \<noteq> i"
      proof
        assume "j = i"
        with o' Bi have "symbol ord' = s'" by simp
        with sym False show False by (simp add: s_def)
      qed
      with o' show ?thesis by (simp add: B3)
    qed
  next
    fix j o'
    assume a: "map_of (book b3) j = Some o'"
    then have ji: "j \<noteq> i" and old: "?B j = Some o'"
      by (auto simp: B3 split: if_splits)
    from book_inv_order [OF inv old] show "uid o' = j" by simp
    from book_inv_order [OF inv old] obtain x where
      x: "?S (symbol o') = Some x" "j \<in> set (sd_keys x)" by blast
    show "\<exists>x. map_of (symbol_dict b3) (symbol o') = Some x \<and> j \<in> set (sd_keys x)"
    proof (cases "symbol o' = s")
      case True
      with x d(1) have "x = d" by simp
      with x(2) ji True show ?thesis by (simp add: S3 d'(3))
    next
      case False
      with x show ?thesis by (simp add: S3)
    qed
  qed
  moreover have "remove_order_trace b ord = [b1, b2, b3]"
    by (simp add: remove_order_trace_def run)
  moreover have "remove_order b ord = (b3, Inr ())"
    by (simp add: remove_order_def run)
  ultimately show ?thesis
    using td(1,3) d d'(1,3)
    unfolding b1_def b2_def b3_def i_def s_def by blast
qed

lemma run_ops_inv:
  assumes "book_inv b" and "\<forall>j o'. map_of (book b) j = Some o' \<longrightarrow> o' \<in> S"
    and "op_order ` set ops \<subseteq> S" and "\<forall>x \<in> S. \<forall>y \<in> S. same_object x y"
  shows "book_inv (run_ops b ops)
           \<and> (\<forall>j o'. map_of (book (run_ops b ops)) j = Some o' \<longrightarrow> o' \<in> S)"
  using assms
proof (induction ops arbitrary: b)
  case Nil
  then show ?case by simp
next
  case (Cons c ops)
  have same: "same_object x y" if "x \<in> S" "y \<in> S" for x y
    using that Cons.prems(4) by blast
  have step: "book_inv (fst (apply_op b c))
                \<and> (\<forall>j o'. map_of (book (fst (apply_op b c))) j = Some o' \<longrightarrow> o' \<in> S)"
  proof (cases c)
    case (Insert ord)
    with Cons.prems(3) have ord: "ord \<in> S" by simp
    have "timestamp o' = timestamp ord \<and> symbol o' = symbol ord"
      if "map_of (book b) (uid ord) = Some o'" for o'
    proof -
      from that Cons.prems(2) have "o' \<in> S" by blast
      moreover from book_inv_order [OF Cons.prems(1) that] have "uid o' = uid ord" by simp
      ultimately show ?thesis using same [of o' ord] ord by (simp add: same_object_def)
    qed
    from insert_order_ok [OF Cons.prems(1) this] obtain b' where
      b': "insert_order b ord = (b', Inr ())" "book_inv b'"
          "map_of (book b') = (map_of (book b))(uid ord \<mapsto> ord)"
      by blast
    with Insert ord Cons.prems(2) show ?thesis by (auto split: if_splits)
  next
    case (Remove ord)
    with Cons.prems(3) have ord: "ord \<in> S" by simp
    show ?thesis
    proof (cases "map_of (book b) (uid ord)")
      case None
      from remove_order_absent [OF Cons.prems(1) None] Remove Cons.prems(1,2)
      show ?thesis by simp
    next
      case (Some o')
      from Some Cons.prems(2) have "o' \<in> S" by blast
      moreover from book_inv_order [OF Cons.prems(1) Some] have "uid o' = uid ord" by simp
      ultimately have "symbol ord = symbol o'"
        using same [of o' ord] ord by (simp add: same_object_def)
      from remove_order_present [OF Cons.prems(1) Some this] obtain b' where
        b': "remove_order b ord = (b', Inr ())" "book_inv b'"
            "book b' = AList.delete (uid ord) (book b)"
        by auto
      have "o'' \<in> S" if "map_of (book b') j = Some o''" for j o''
        using that b'(3) Cons.prems(2) by (auto simp: delete_conv' split: if_splits)
      with b' Remove show ?thesis by auto
    qed
  qed
  from Cons.prems(3) have "op_order ` set ops \<subseteq> S" by simp
  from Cons.IH [OF conjunct1 [OF step] conjunct2 [OF step] this Cons.prems(4)]
  show ?case by simp
qed

lemma reachable_inv:
  assumes "unique_ids (map op_order ops)"
  shows "book_inv (run_ops OrderBook_init ops)
           \<and> (\<forall>j o'. map_of (book (run_ops OrderBook_init ops)) j = Some o'
                 \<longrightarrow> o' \<in> op_order ` set ops)"
proof (rule run_ops_inv)
  show "book_inv OrderBook_init" by (rule book_inv_init)
  show "\<forall>j o'. map_of (book OrderBook_init) j = Some o' \<longrightarrow> o' \<in> op_order ` set ops"
    by (simp add: OrderBook_init_def)
  show "op_order ` set ops \<subseteq> op_order ` set ops" by simp
  show "\<forall>x \<in> op_order ` set ops. \<forall>y \<in> op_order ` set ops. same_object x y"
    using assms by (simp add: unique_ids_def)
qed

lemma filter_unique:
  "distinct (map fst xs) \<Longrightarrow> (s, d) \<in> set xs \<Longrightarrow> P (s, d) \<Longrightarrow>
   \<forall>x \<in> set xs. P x \<longrightarrow> fst x = s \<Longrightarrow> filter P xs = [(s, d)]"
proof (induction xs)
  case Nil
  then show ?case by simp
next
  case (Cons a xs)
  show ?case
  proof (cases "a = (s, d)")
    case True
    with Cons.prems(1) have "s \<notin> fst ` set xs" by simp
    have "\<not> P x" if "x \<in> set xs" for x
    proof
      assume "P x"
      with that Cons.prems(4) have "fst x = s" by simp
      with that \<open>s \<notin> fst ` set xs\<close> show False by force
    qed
    then have "\<forall>x \<in> set xs. \<not> P x" by blast
    then have "filter P xs = []" by (simp add: filter_empty_conv)
    with True Cons.prems(3) show ?thesis by simp
  next
    case False
    with Cons.prems(2) have mem: "(s, d) \<in> set xs" by simp
    then have "s \<in> fst ` set xs" by force
    with Cons.prems(1) have "fst a \<noteq> s" by auto
    with Cons.prems(4) have "\<not> P a" by auto
    moreover from Cons.prems have "filter P xs = [(s, d)]"
      using mem by (intro Cons.IH) auto
    ultimately show ?thesis by simp
  qed
qed

lemma book_inv_consistent:
  assumes inv: "book_inv b"
  shows "fst ` set (book b) = set (sd_keys (time_dict b))
       \<and> fst ` set (sd_dict (time_dict b)) = set (sd_keys (time_dict b))
       \<and> fst ` set (book b) = (\<Union>(s, d) \<in> set (symbol_dict b). set (sd_keys d))
       \<and> (\<forall>i \<in> fst ` set (book b).
             length (filter (\<lambda>(s, d). i \<in> set (sd_keys d)) (symbol_dict b)) = 1)"
proof -
  let ?B = "map_of (book b)" and ?S = "map_of (symbol_dict b)"
  from book_inv_distinct [OF inv] have dS: "distinct (map fst (symbol_dict b))" by simp
  have dom: "fst ` set (book b) = dom ?B"
    by (simp add: dom_map_of_conv_image_fst)
  from book_inv_time [OF inv] have 1: "fst ` set (book b) = set (sd_keys (time_dict b))"
    by (simp add: dom)
  from book_inv_time [OF inv] have 2:
    "fst ` set (sd_dict (time_dict b)) = set (sd_keys (time_dict b))"
    unfolding sd_ok_def by simp
  have 3: "fst ` set (book b) = (\<Union>(s, d) \<in> set (symbol_dict b). set (sd_keys d))"
  proof (intro set_eqI iffI)
    fix i
    assume "i \<in> fst ` set (book b)"
    then obtain o' where "?B i = Some o'" by (auto simp: dom)
    from book_inv_order [OF inv this] obtain d where
      "?S (symbol o') = Some d" "i \<in> set (sd_keys d)" by blast
    then show "i \<in> (\<Union>(s, d) \<in> set (symbol_dict b). set (sd_keys d))"
      by (auto dest: map_of_SomeD)
  next
    fix i
    assume "i \<in> (\<Union>(s, d) \<in> set (symbol_dict b). set (sd_keys d))"
    then obtain s d where "(s, d) \<in> set (symbol_dict b)" "i \<in> set (sd_keys d)" by auto
    with dS have "?S s = Some d" "i \<in> set (sd_keys d)" by simp_all
    with book_inv_symbol [OF inv] show "i \<in> fst ` set (book b)"
      unfolding dom by blast
  qed
  have 4: "length (filter (\<lambda>(s, d). i \<in> set (sd_keys d)) (symbol_dict b)) = 1"
    if "i \<in> fst ` set (book b)" for i
  proof -
    from that obtain o' where o': "?B i = Some o'" by (auto simp: dom)
    from book_inv_order [OF inv this] obtain d where
      d: "?S (symbol o') = Some d" "i \<in> set (sd_keys d)" by blast
    have "filter (\<lambda>(s, d). i \<in> set (sd_keys d)) (symbol_dict b) = [(symbol o', d)]"
    proof (rule filter_unique [OF dS])
      show "(symbol o', d) \<in> set (symbol_dict b)" using d(1) by (rule map_of_SomeD)
      show "case (symbol o', d) of (s, d) \<Rightarrow> i \<in> set (sd_keys d)" using d(2) by simp
      show "\<forall>x \<in> set (symbol_dict b). (case x of (s, d) \<Rightarrow> i \<in> set (sd_keys d))
              \<longrightarrow> fst x = symbol o'"
      proof (intro ballI impI)
        fix x
        assume x: "x \<in> set (symbol_dict b)" "case x of (s, d) \<Rightarrow> i \<in> set (sd_keys d)"
        obtain s' d' where xd: "x = (s', d')" by (cases x)
        with x dS have "?S s' = Some d'" "i \<in> set (sd_keys d')" by simp_all
        with book_inv_symbol [OF inv] o' have "symbol o' = s'" by fastforce
        with xd show "fst x = symbol o'" by simp
      qed
    qed
    then show ?thesis by simp
  qed
  from 1 2 3 4 show ?thesis by blast
qed

subsection \<open>Worked examples\<close>

lemmas eval_defs = insert_order_def remove_order_def remove_order_trace_def remove_order_steps_def
  set_symbol_item_def del_time_item_def del_symbol_item_def del_book_item_def
  sd_setitem_def sd_delitem_def skl_add_def skl_remove_def bisect_left_def bisect_right_def
  key_of_def OrderBook_init_def SortedDict_init_def Let_def

lemma order_fields:
  "uid order_A = 1" "timestamp order_A = 100" "symbol order_A = ''BTC/USD''"
  "uid order_C = 2" "timestamp order_C = 100" "symbol order_C = ''BTC/USD''"
  "uid order_B = 2" "timestamp order_B = 50" "symbol order_B = ''ETH/USD''"
  by (simp_all add: order_A_def order_B_def order_C_def)

lemma insert_A: "insert_order OrderBook_init order_A = (book_A, Inr ())"
  by (simp add: eval_defs order_fields book_A_def)

lemma insert_CA: "run_ops OrderBook_init [Insert order_C, Insert order_A] = book_CA"
  by (simp add: eval_defs order_fields book_CA_def)

lemma remove_A_trace:
  "remove_order_trace book_A order_A =
     [book_A\<lparr>time_dict := SortedDict_init\<rparr>,
      book_A\<lparr>time_dict := SortedDict_init, symbol_dict := [(''BTC/USD'', SortedDict_init)]\<rparr>,
      \<lparr>book = [], time_dict = SortedDict_init, symbol_dict = [(''BTC/USD'', SortedDict_init)]\<rparr>]"
  by (simp add: eval_defs order_fields book_A_def)

lemma get_CA: "book_get_orders ex_dt_str book_CA [] 0 True = Inr [PInt 2, PInt 1]"
  by (simp add: book_get_orders_def book_CA_def sd_keys_def)

lemma run_ABA: "book_B = run_ops OrderBook_init [Insert order_A, Insert order_B, Remove order_A]"
  by (simp add: eval_defs order_fields book_B_def)

lemma run_AB: "book_AB = run_ops OrderBook_init [Insert order_A, Insert order_B]"
  by (simp add: eval_defs order_fields book_AB_def)

lemma unique_ABA: "unique_ids (map op_order [Insert order_A, Insert order_B, Remove order_A])"
  by (simp add: unique_ids_def same_object_def order_fields)

lemma unique_AB: "unique_ids (order_A # map op_order [Insert order_A, Insert order_B])"
  by (simp add: unique_ids_def same_object_def order_fields)

subsection \<open>Consistency of the three indices\<close>

text \<open>
  C1. After any sequence of \<^verbatim>\<open>insert_order\<close> and \<^verbatim>\<open>remove_order\<close> calls on
  a fresh order book, the calls that raise included, made with orders of unique
  identifiers: the identifiers of the primary map, the identifiers that the global time
  index iterates over (which are the keys of its dictionary), and the union of the
  identifiers of the per-symbol indices are one set, and every identifier of the
  primary map is in exactly one per-symbol index.
\<close>

theorem order_book_consistent:
  assumes "unique_ids (map op_order ops)" and "b = run_ops OrderBook_init ops"
  shows "fst ` set (book b) = set (sd_keys (time_dict b))
       \<and> fst ` set (sd_dict (time_dict b)) = set (sd_keys (time_dict b))
       \<and> fst ` set (book b) = (\<Union>(s, d) \<in> set (symbol_dict b). set (sd_keys d))
       \<and> (\<forall>i \<in> fst ` set (book b).
             length (filter (\<lambda>(s, d). i \<in> set (sd_keys d)) (symbol_dict b)) = 1)"
  using reachable_inv [OF assms(1)] assms(2) book_inv_consistent [of b] by blast

theorem order_book_consistent_witness:
  "unique_ids (map op_order [Insert order_A, Insert order_B, Remove order_A])
   \<and> book_B = run_ops OrderBook_init [Insert order_A, Insert order_B, Remove order_A]
   \<and> fst ` set (book book_B) = set (sd_keys (time_dict book_B))
   \<and> fst ` set (book book_B) = (\<Union>(s, d) \<in> set (symbol_dict book_B). set (sd_keys d))
   \<and> 2 \<in> fst ` set (book book_B)
   \<and> length (filter (\<lambda>(s, d). 2 \<in> set (sd_keys d)) (symbol_dict book_B)) = 1"
proof -
  have mem: "2 \<in> fst ` set (book book_B)"
    by (simp add: book_B_def)
  note c = order_book_consistent [OF unique_ABA run_ABA]
  from c have 1: "fst ` set (book book_B) = set (sd_keys (time_dict book_B))"
    by (rule conjunct1)
  from c have 3: "fst ` set (book book_B)
                    = (\<Union>(s, d) \<in> set (symbol_dict book_B). set (sd_keys d))"
    by (rule conjunct1 [OF conjunct2 [OF conjunct2]])
  from c have "\<forall>i \<in> fst ` set (book book_B).
                 length (filter (\<lambda>(s, d). i \<in> set (sd_keys d)) (symbol_dict book_B)) = 1"
    by (rule conjunct2 [OF conjunct2 [OF conjunct2]])
  then have 4: "length (filter (\<lambda>(s, d). 2 \<in> set (sd_keys d)) (symbol_dict book_B)) = 1"
    using mem by (rule bspec)
  from unique_ABA run_ABA 1 3 mem 4 show ?thesis
    by (intro conjI)
qed

text \<open>
  C10. In an order book reached by such a sequence, \<^verbatim>\<open>remove_order\<close> of an order
  whose identifier is not in the primary map raises KeyError and leaves the primary
  map, the global time index and every per-symbol index as they were. The error is
  raised by the first statement, when the dictionary of the global time index does not
  find the identifier.
\<close>

theorem remove_unknown_order:
  assumes "unique_ids (map op_order ops)" and "b = run_ops OrderBook_init ops"
    and "uid ord \<notin> fst ` set (book b)"
  shows "remove_order b ord = (b, Inl KeyError)"
proof -
  from reachable_inv [OF assms(1)] assms(2) have inv: "book_inv b" by simp
  from assms(3) have "map_of (book b) (uid ord) = None"
    by (simp add: map_of_eq_None_iff)
  from remove_order_absent [OF inv this] show ?thesis by simp
qed

theorem remove_unknown_order_witness:
  "uid order_A \<notin> fst ` set (book book_B)
   \<and> remove_order book_B order_A = (book_B, Inl KeyError)"
proof -
  have absent: "uid order_A \<notin> fst ` set (book book_B)"
    by (simp add: book_B_def order_fields)
  from remove_unknown_order [OF unique_ABA run_ABA absent] absent show ?thesis by blast
qed

subsection \<open>The order of the deletions\<close>

text \<open>
  C4, as the claim states it, fails: after the first statement of
  \<^verbatim>\<open>remove_order\<close> the identifier is gone from the global time index and still in
  the per-symbol index.
\<close>

theorem remove_order_per_symbol_first_counterexample:
  "uid order_A \<in> fst ` set (book book_A)
   \<and> time_dict (hd (remove_order_trace book_A order_A)) = \<lparr>sd_dict = [], sd_list = []\<rparr>
   \<and> symbol_dict (hd (remove_order_trace book_A order_A)) =
       [(''BTC/USD'', \<lparr>sd_dict = [(1, order_A)], sd_list = [(100, 1)]\<rparr>)]"
  by (simp add: remove_A_trace) (simp add: book_A_def order_fields SortedDict_init_def)

text \<open>
  C4, amended. For an order present in a book reached from a fresh one,
  \<^verbatim>\<open>remove_order\<close> returns after three statements: the first deletes the
  identifier from the global time index and leaves the per-symbol indices, which still
  hold it, and the primary map alone; the second deletes it from the per-symbol index
  and leaves the two others alone; the third deletes it from the primary map.
\<close>

theorem remove_order_sequence:
  assumes "unique_ids (ord # map op_order ops)" and "b = run_ops OrderBook_init ops"
    and "uid ord \<in> fst ` set (book b)"
  shows "\<exists>b1 b2 b3. remove_order_trace b ord = [b1, b2, b3]
           \<and> remove_order b ord = (b3, Inr ())
           \<and> uid ord \<notin> set (sd_keys (time_dict b1))
           \<and> symbol_dict b1 = symbol_dict b \<and> book b1 = book b
           \<and> (\<exists>(s, d) \<in> set (symbol_dict b1). uid ord \<in> set (sd_keys d))
           \<and> (\<forall>(s, d) \<in> set (symbol_dict b2). uid ord \<notin> set (sd_keys d))
           \<and> time_dict b2 = time_dict b1 \<and> book b2 = book b
           \<and> uid ord \<notin> fst ` set (book b3)
           \<and> time_dict b3 = time_dict b1 \<and> symbol_dict b3 = symbol_dict b2"
proof -
  from assms(1) have u: "unique_ids (map op_order ops)"
    by (simp add: unique_ids_def)
  from reachable_inv [OF u] assms(2) have inv: "book_inv b"
    and stored: "\<forall>j o'. map_of (book b) j = Some o' \<longrightarrow> o' \<in> op_order ` set ops" by simp_all
  from assms(3) obtain o' where o': "map_of (book b) (uid ord) = Some o'"
    by (metis map_of_eq_None_iff not_None_eq)
  with stored have "o' \<in> op_order ` set ops" by blast
  with assms(1) have "same_object ord o'"
    by (auto simp: unique_ids_def)
  moreover from book_inv_order [OF inv o'] have "uid o' = uid ord" by simp
  ultimately have sym: "symbol ord = symbol o'" by (simp add: same_object_def)
  from remove_order_present [OF inv o' sym] obtain td d d' where
    td: "set (sd_keys td) = set (sd_keys (time_dict b)) - {uid ord}" and
    d: "map_of (symbol_dict b) (symbol ord) = Some d" "uid ord \<in> set (sd_keys d)" and
    tr: "remove_order_trace b ord =
             [b\<lparr>time_dict := td\<rparr>,
              b\<lparr>time_dict := td, symbol_dict := AList.update (symbol ord) d' (symbol_dict b)\<rparr>,
              b\<lparr>time_dict := td, symbol_dict := AList.update (symbol ord) d' (symbol_dict b),
                book := AList.delete (uid ord) (book b)\<rparr>]" and
    res: "remove_order b ord =
             (b\<lparr>time_dict := td, symbol_dict := AList.update (symbol ord) d' (symbol_dict b),
                book := AList.delete (uid ord) (book b)\<rparr>, Inr ())" and
    inv3: "book_inv (b\<lparr>time_dict := td,
                         symbol_dict := AList.update (symbol ord) d' (symbol_dict b),
                         book := AList.delete (uid ord) (book b)\<rparr>)"
    by blast
  let ?b3 = "b\<lparr>time_dict := td, symbol_dict := AList.update (symbol ord) d' (symbol_dict b),
                book := AList.delete (uid ord) (book b)\<rparr>"
  have "fst ` set (AList.delete (uid ord) (book b))
          = set (removeAll (uid ord) (map fst (book b)))"
    by (metis delete_keys list.set_map)
  then have gone: "uid ord \<notin> fst ` set (book ?b3)"
    by simp
  have "\<forall>(s, x) \<in> set (symbol_dict ?b3). uid ord \<notin> set (sd_keys x)"
    using book_inv_consistent [OF inv3] gone by blast
  then have 2: "\<forall>(s, x) \<in> set (AList.update (symbol ord) d' (symbol_dict b)).
                  uid ord \<notin> set (sd_keys x)"
    by simp
  have 1: "\<exists>(s, x) \<in> set (symbol_dict b). uid ord \<in> set (sd_keys x)"
    using d map_of_SomeD [OF d(1)] by blast
  show ?thesis
    unfolding tr res using td 1 2 gone by simp
qed

theorem remove_order_sequence_witness:
  "unique_ids (order_A # map op_order [Insert order_A, Insert order_B])
   \<and> uid order_A \<in> fst ` set (book book_AB)
   \<and> (\<exists>b1 b2 b3. remove_order_trace book_AB order_A = [b1, b2, b3]
         \<and> remove_order book_AB order_A = (b3, Inr ())
         \<and> uid order_A \<notin> set (sd_keys (time_dict b1))
         \<and> (\<exists>(s, d) \<in> set (symbol_dict b1). uid order_A \<in> set (sd_keys d))
         \<and> (\<forall>(s, d) \<in> set (symbol_dict b2). uid order_A \<notin> set (sd_keys d))
         \<and> book b2 = book book_AB
         \<and> uid order_A \<notin> fst ` set (book b3))"
proof -
  have present: "uid order_A \<in> fst ` set (book book_AB)"
    by (simp add: book_AB_def order_fields)
  from remove_order_sequence [OF unique_AB run_AB present] unique_AB present
  show ?thesis by blast
qed

subsection \<open>Queries\<close>

lemma slice_tail:
  "0 < limit \<Longrightarrow>
     slice_from xs (- min limit (int (length xs)))
       = drop (length xs - nat (min limit (int (length xs)))) xs"
  by (cases "xs = []") (auto simp: slice_from_def Let_def min_def max_def nat_diff_distrib')

lemma distinct_keys_length:
  "distinct (map fst xs) \<Longrightarrow> distinct ys \<Longrightarrow> set ys = fst ` set xs \<Longrightarrow> length xs = length ys"
proof -
  assume a: "distinct (map fst xs)" "distinct ys" "set ys = fst ` set xs"
  have "length xs = length (map fst xs)" by simp
  also have "\<dots> = card (set (map fst xs))" using a(1) by (simp only: distinct_card)
  also have "\<dots> = card (set ys)" using a(3) by simp
  also have "\<dots> = length ys" using a(2) by (simp only: distinct_card)
  finally show ?thesis .
qed

lemma sd_ok_len: "sd_ok keyf d \<Longrightarrow> sd_len d = length (sd_keys d)"
  unfolding sd_ok_def sd_len_def by (blast intro: distinct_keys_length)

lemma sd_ok_sorted:
  assumes "sd_ok keyf d"
  shows "distinct (sd_keys d) \<and> map keyf (sd_keys d) = map Inr (map fst (sd_list d))
           \<and> sorted (map fst (sd_list d))"
proof -
  from assms have "\<forall>x \<in> set (sd_list d). keyf (snd x) = Inr (fst x)"
    unfolding sd_ok_def by fastforce
  then have "map keyf (sd_keys d) = map Inr (map fst (sd_list d))"
    by (simp add: sd_keys_def)
  with assms show ?thesis by (simp add: sd_ok_def)
qed

lemma get_orders_ids:
  assumes "sd_ok keyf d" and "length (book b) = length (sd_keys d) \<or> symb \<noteq> []"
    and "symb = [] \<longrightarrow> time_dict b = d"
    and "symb \<noteq> [] \<longrightarrow> map_of (symbol_dict b) symb = Some d"
  shows "book_get_orders dt_str b symb limit True =
           Inr (map PInt (if limit \<le> 0 then sd_keys d
                          else drop (length (sd_keys d)
                                       - nat (min limit (int (length (sd_keys d))))) (sd_keys d)))"
  using assms sd_ok_len [OF assms(1)]
  by (auto simp: book_get_orders_def Let_def slice_tail)

text \<open>
  C5, as the claim states it, fails on the tiebreak: two orders of one timestamp are
  listed in the order of their insertion, here identifier 2 before identifier 1.
\<close>

theorem get_orders_id_tiebreak_counterexample:
  "book_CA = run_ops OrderBook_init [Insert order_C, Insert order_A]
   \<and> unique_ids (map op_order [Insert order_C, Insert order_A])
   \<and> book_get_orders ex_dt_str book_CA [] 0 True = Inr [PInt 2, PInt 1]
   \<and> key_of book_CA 2 = Inr 100 \<and> key_of book_CA 1 = Inr 100"
proof -
  have "unique_ids (map op_order [Insert order_C, Insert order_A])"
    by (simp add: unique_ids_def same_object_def order_fields)
  moreover have "key_of book_CA 2 = Inr 100" "key_of book_CA 1 = Inr 100"
    by (simp_all add: key_of_def book_CA_def order_fields)
  ultimately show ?thesis
    using insert_CA [symmetric] get_CA by (intro conjI)
qed

text \<open>
  C5, amended. In an order book reached from a fresh one, \<^verbatim>\<open>get_orders\<close> with an
  empty symbol and a limit that is not positive returns every identifier of the book
  once, in ascending order of the timestamps of the orders (the identifier breaks no
  tie). With a limit k above 0 it returns the last k entries of that list, all of them
  when there are fewer, in the same order. With a symbol that is not empty it does the
  same over the identifiers of the orders of that symbol, and it returns the empty list,
  not an error, when the symbol has no index.
\<close>

theorem get_orders_ordering:
  assumes "unique_ids (map op_order ops)" and "b = run_ops OrderBook_init ops"
  shows "\<exists>ids ts. distinct ids
           \<and> set ids = {i. \<exists>ord. map_of (book b) i = Some ord \<and> (symb = [] \<or> symbol ord = symb)}
           \<and> map (key_of b) ids = map Inr ts \<and> sorted ts
           \<and> (\<forall>limit. book_get_orders dt_str b symb limit True =
                 Inr (map PInt (if limit \<le> 0 then ids
                                else drop (length ids - nat (min limit (int (length ids)))) ids)))"
proof -
  from reachable_inv [OF assms(1)] assms(2) have inv: "book_inv b" by simp
  let ?B = "map_of (book b)" and ?S = "map_of (symbol_dict b)"
  let ?want = "{i. \<exists>ord. ?B i = Some ord \<and> (symb = [] \<or> symbol ord = symb)}"
  show ?thesis
  proof (cases "symb \<noteq> [] \<and> ?S symb = None")
    case True
    have "?want = {}"
    proof -
      have False if "?B i = Some ord" "symbol ord = symb" for i ord
        using book_inv_order [OF inv that(1)] that(2) True by auto
      with True show ?thesis by blast
    qed
    moreover have "book_get_orders dt_str b symb limit True = Inr []" for limit
      using True by (simp add: book_get_orders_def)
    ultimately show ?thesis
      by (intro exI [of _ "[]"]) simp
  next
    case False
    define d where "d = (if symb = [] then time_dict b else the (?S symb))"
    have d_time: "symb = [] \<longrightarrow> time_dict b = d"
      and d_symb: "symb \<noteq> [] \<longrightarrow> ?S symb = Some d"
      using False by (auto simp: d_def)
    have ok: "sd_ok (key_of b) d"
      using book_inv_time [OF inv] book_inv_symbol [OF inv] d_time d_symb
      by (cases "symb = []") auto
    have ids: "set (sd_keys d) = ?want"
    proof (cases "symb = []")
      case True
      with book_inv_time [OF inv] d_time show ?thesis by auto
    next
      case ne: False
      with d_symb have Sd: "?S symb = Some d" by simp
      show ?thesis
      proof (intro set_eqI iffI)
        fix i
        assume "i \<in> set (sd_keys d)"
        with book_inv_symbol [OF inv Sd] show "i \<in> ?want" by auto
      next
        fix i
        assume "i \<in> ?want"
        with ne obtain ord where "?B i = Some ord" "symbol ord = symb" by auto
        with book_inv_order [OF inv this(1)] Sd show "i \<in> set (sd_keys d)" by auto
      qed
    qed
    have len: "length (book b) = length (sd_keys d) \<or> symb \<noteq> []"
    proof (cases "symb = []")
      case True
      with d_time have "d = time_dict b" by simp
      moreover have "length (book b) = length (sd_keys (time_dict b))"
      proof (rule distinct_keys_length)
        show "distinct (map fst (book b))"
          using book_inv_distinct [OF inv] by simp
        show "distinct (sd_keys (time_dict b))"
          using book_inv_time [OF inv] unfolding sd_ok_def by simp
        show "set (sd_keys (time_dict b)) = fst ` set (book b)"
          using book_inv_time [OF inv] by (simp add: dom_map_of_conv_image_fst)
      qed
      ultimately show ?thesis by simp
    next
      case False
      then show ?thesis by simp
    qed
    from sd_ok_sorted [OF ok] ids get_orders_ids [OF ok len d_time d_symb, of dt_str]
    show ?thesis
      by (intro exI [of _ "sd_keys d"] exI [of _ "map fst (sd_list d)"]) simp
  qed
qed

lemma get_AB:
  "book_get_orders ex_dt_str book_AB [] 0 True = Inr [PInt 2, PInt 1]"
  "book_get_orders ex_dt_str book_AB [] 1 True = Inr [PInt 1]"
  "book_get_orders ex_dt_str book_AB ''BTC/USD'' 5 True = Inr [PInt 1]"
  "book_get_orders ex_dt_str book_AB ''XRP/USD'' 0 True = Inr []"
  by (simp_all add: book_get_orders_def book_AB_def sd_keys_def sd_len_def slice_from_def)

lemma unique_AB2: "unique_ids (map op_order [Insert order_A, Insert order_B])"
  by (simp add: unique_ids_def same_object_def order_fields)

theorem get_orders_ordering_witness:
  "unique_ids (map op_order [Insert order_A, Insert order_B])
   \<and> book_AB = run_ops OrderBook_init [Insert order_A, Insert order_B]
   \<and> (\<exists>ids ts. distinct ids \<and> map (key_of book_AB) ids = map Inr ts \<and> sorted ts
         \<and> book_get_orders ex_dt_str book_AB [] 0 True = Inr (map PInt ids)
         \<and> book_get_orders ex_dt_str book_AB [] 1 True
             = Inr (map PInt (drop (length ids - 1) ids)))
   \<and> book_get_orders ex_dt_str book_AB [] 0 True = Inr [PInt 2, PInt 1]
   \<and> book_get_orders ex_dt_str book_AB [] 1 True = Inr [PInt 1]
   \<and> book_get_orders ex_dt_str book_AB ''BTC/USD'' 5 True = Inr [PInt 1]
   \<and> book_get_orders ex_dt_str book_AB ''XRP/USD'' 0 True = Inr []"
proof -
  from get_orders_ordering [OF unique_AB2 run_AB, of "[]" ex_dt_str] obtain ids ts where
    a: "distinct ids" "map (key_of book_AB) ids = map Inr ts" "sorted ts" and
    g: "\<forall>limit. book_get_orders ex_dt_str book_AB [] limit True =
                 Inr (map PInt (if limit \<le> 0 then ids
                                else drop (length ids - nat (min limit (int (length ids)))) ids))"
    by blast
  from g [rule_format, of 0] have g0: "book_get_orders ex_dt_str book_AB [] 0 True = Inr (map PInt ids)"
    by simp
  with get_AB(1) have "ids = [2, 1]"
    by (simp add: map_eq_Cons_conv)
  with g [rule_format, of 1] have g1:
    "book_get_orders ex_dt_str book_AB [] 1 True = Inr (map PInt (drop (length ids - 1) ids))"
    by simp
  have "\<exists>ids ts. distinct ids \<and> map (key_of book_AB) ids = map Inr ts \<and> sorted ts
         \<and> book_get_orders ex_dt_str book_AB [] 0 True = Inr (map PInt ids)
         \<and> book_get_orders ex_dt_str book_AB [] 1 True
             = Inr (map PInt (drop (length ids - 1) ids))"
    using a g0 g1 by (intro exI [of _ ids] exI [of _ ts] conjI)
  with unique_AB2 run_AB get_AB show ?thesis
    by (intro conjI)
qed

end
